theory Spec2Isabelle
  imports Main
begin

section \<open>Handles, attributes and fatal errors\<close>

text \<open>
  The pass of \<^verbatim>\<open>lib/AIEObjectFifoStatefulTransform.cpp\<close> rewrites an MLIR module.
  An SSA value of a tile and the handle of an \<^verbatim>\<open>ObjectFifoCreateOp\<close> are compared by
  identity only, so both are natural numbers here. The C++ \<^verbatim>\<open>int\<close> and
  \<^verbatim>\<open>int64_t\<close> are modelled by \<^typ>\<open>int\<close>: the arithmetic of the pass
  (a maximum, an increment by one, products of loop bounds) is exact as long as no value
  leaves the machine range, and signed overflow is undefined in the source.
\<close>

type_synonym tile = nat
type_synonym fifo = nat

text \<open>Every \<^verbatim>\<open>assert\<close> of the source is a fatal error; the constructor names the message.\<close>

datatype error =
    NoMoreLocks               \<comment> \<open>"No more locks to allocate!"\<close>
  | TooManyBlocks             \<comment> \<open>"Cannot have more than 16 blocks in a DMA channel."\<close>
  | NotAcquireOrRelease       \<comment> \<open>"... must be called on either ObjectFifoAcquireOp or ObjectFifoReleaseOp"\<close>
  | NotInsideCore             \<comment> \<open>"ObjectFifoAcquireOp or ObjectFifoReleaseOp must be used inside a CoreOp"\<close>
  | NonProducerTile           \<comment> \<open>"Producer port of objectFifo accessed by core running on non-producer tile"\<close>
  | NonConsumerTile           \<comment> \<open>"Consumer port of objectFifo accessed by core running on non-consumer tile"\<close>
  | ReleaseMoreThanAcquired   \<comment> \<open>"Cannot release more elements than are already acquired."\<close>
  | UndefinedBehaviour        \<comment> \<open>an out-of-range vector access, a null dereference or a division by zero\<close>

section \<open>Lock analysis\<close>

text \<open>
  \<^verbatim>\<open>DenseMap<std::pair<Value, int>, int> locksPerTile\<close>: reading an absent key with
  \<^verbatim>\<open>operator[]\<close> yields 0, so the map is a total function that is 0 by default.
\<close>

record LockOp =
  lock_tile :: tile
  lock_lockID :: int

type_synonym LockAnalysis = "tile \<times> int \<Rightarrow> int"

text \<open>The constructor: every lock operation of the module marks its index on its tile.\<close>

definition LockAnalysis :: "LockOp list \<Rightarrow> LockAnalysis" where
  "LockAnalysis lockOps =
     foldl (\<lambda>locksPerTile lockOp. locksPerTile((lock_tile lockOp, lock_lockID lockOp) := 1))
       (\<lambda>_. 0) lockOps"

text \<open>
  \<^verbatim>\<open>getLockID\<close>: the loop \<^verbatim>\<open>for (unsigned i = 0; i < 16; i++)\<close>, started at \<open>i\<close>.
  It returns the index and the updated map, or \<open>-1\<close> and the map as it was.
\<close>

function getLockID_loop :: "nat \<Rightarrow> LockAnalysis \<Rightarrow> tile \<Rightarrow> int \<times> LockAnalysis" where
  "getLockID_loop i locksPerTile tileOp =
     (if i < 16 then
        (if locksPerTile (tileOp, int i) = 0
         then (int i, locksPerTile((tileOp, int i) := 1))
         else getLockID_loop (Suc i) locksPerTile tileOp)
      else (- 1, locksPerTile))"
  by pat_completeness auto
termination
  by (relation "measure (\<lambda>(i, _, _). 16 - i)") auto

declare getLockID_loop.simps [simp del]

definition getLockID :: "LockAnalysis \<Rightarrow> tile \<Rightarrow> int \<times> LockAnalysis" where
  "getLockID locksPerTile tileOp = getLockID_loop 0 locksPerTile tileOp"

text \<open>
  The allocation site in \<^verbatim>\<open>createObjectFifoElements\<close>:
  \<^verbatim>\<open>int lockID = lockAnalysis.getLockID(tile); assert(lockID >= 0 && "No more locks to allocate!");\<close>
  followed by the creation of the lock operation on that tile.
\<close>

definition allocateLock :: "LockAnalysis \<Rightarrow> tile \<Rightarrow> error + (LockOp \<times> LockAnalysis)" where
  "allocateLock lockAnalysis tileOp =
     (case getLockID lockAnalysis tileOp of
        (lockID, lockAnalysis') \<Rightarrow>
          if lockID \<ge> 0
          then Inr (\<lparr>lock_tile = tileOp, lock_lockID = lockID\<rparr>, lockAnalysis')
          else Inl NoMoreLocks)"

text \<open>
  The states of the allocator that a run of the pass can reach: the one its constructor
  builds from the lock operations of the input module, and the one after any request.
\<close>

inductive reachableLocks :: "LockOp list \<Rightarrow> LockAnalysis \<Rightarrow> bool" for lockOps where
  constructed: "reachableLocks lockOps (LockAnalysis lockOps)"
| requested: "reachableLocks lockOps la \<Longrightarrow> getLockID la t = (i, la') \<Longrightarrow> reachableLocks lockOps la'"

section \<open>The operations of the module\<close>

text \<open>
  An object FIFO declaration. The producer tile, the consumer tiles and the element type
  are operands and the result type of the operation; \<open>elemNumber\<close> is its depth attribute.
  The type of the elements is a memref, of which only the shape is read.
\<close>

type_synonym MemRefType = "int list"

record ObjectFifoCreateOp =
  producerTile :: tile
  consumerTiles :: "tile list"
  elemNumber :: int
  elemType :: MemRefType

text \<open>
  Modelled from the spec: the accessor \<^verbatim>\<open>size()\<close> of \<^verbatim>\<open>ObjectFifoCreateOp\<close> is declared
  in \<^verbatim>\<open>aie/AIEDialect.h\<close>, which is not among the sources. It is the declared depth of the
  queue, the attribute that \<^verbatim>\<open>runOnOperation\<close> overwrites with
  \<^verbatim>\<open>setAttr("elemNumber", ...)\<close> before the elements of a resized queue are created.
\<close>

definition size_fifo :: "ObjectFifoCreateOp \<Rightarrow> int" where
  "size_fifo objFifo = elemNumber objFifo"

datatype ObjectFifoPort = Produce | Consume

text \<open>
  Operations inside a compute kernel. An SSA value is a result of an operation or an
  argument of the block an operation owns (the induction variable of a loop is argument 0
  of its body). An operation has an identity, a name with its attributes, operands, and
  the operations of its body. The regions modelled have one block: the body of
  \<^verbatim>\<open>scf.for\<close> always has, and a kernel written with structured loops has.
  The queue of an acquire or a release is its operand 0, a result of the declaration.
\<close>

type_synonym opid = nat

datatype val = OpResult opid nat | BlockArg opid nat

datatype opname =
    CoreOp tile
  | ObjectFifoAcquireOp ObjectFifoPort int
  | ObjectFifoReleaseOp ObjectFifoPort int
  | ObjectFifoSubviewAccessOp int
  | ForOp
  | ConstantOp int
  | AddIOp
  | OtherOp string

datatype operation =
  Operation (opId: opid) (opName: opname) (operands: "val list") (body: "operation list")

text \<open>\<^verbatim>\<open>value.getDefiningOp()\<close>: null for a block argument.\<close>

fun getDefiningOp :: "val \<Rightarrow> opid option" where
  "getDefiningOp (OpResult i k) = Some i"
| "getDefiningOp (BlockArg i k) = None"

text \<open>
  \<^verbatim>\<open>op.fifo().getDefiningOp<ObjectFifoCreateOp>()\<close>: the handles of declarations are the
  identities of the operations that define them.
\<close>

definition fifoOf :: "operation \<Rightarrow> fifo option" where
  "fifoOf op = (case operands op of [] \<Rightarrow> None | v # _ \<Rightarrow> getDefiningOp v)"

definition portOf :: "operation \<Rightarrow> ObjectFifoPort option" where
  "portOf op =
     (case opName op of
        ObjectFifoAcquireOp port n \<Rightarrow> Some port
      | ObjectFifoReleaseOp port n \<Rightarrow> Some port
      | _ \<Rightarrow> None)"

definition isAcquire :: "operation \<Rightarrow> bool" where
  "isAcquire op = (case opName op of ObjectFifoAcquireOp port n \<Rightarrow> True | _ \<Rightarrow> False)"

definition isRelease :: "operation \<Rightarrow> bool" where
  "isRelease op = (case opName op of ObjectFifoReleaseOp port n \<Rightarrow> True | _ \<Rightarrow> False)"

definition acqNumber :: "operation \<Rightarrow> int" where
  "acqNumber op = (case opName op of ObjectFifoAcquireOp port n \<Rightarrow> n | _ \<Rightarrow> 0)"

definition relNumber :: "operation \<Rightarrow> int" where
  "relNumber op = (case opName op of ObjectFifoReleaseOp port n \<Rightarrow> n | _ \<Rightarrow> 0)"

text \<open>\<^verbatim>\<open>op.walk(...)\<close> visits the operations nested in \<open>op\<close> and then \<open>op\<close> itself.\<close>

fun walk :: "operation \<Rightarrow> operation list" where
  "walk (Operation i n vs ops) = concat (map walk ops) @ [Operation i n vs ops]"

definition tileOfCore :: "operation \<Rightarrow> tile option" where
  "tileOfCore op = (case opName op of CoreOp t \<Rightarrow> Some t | _ \<Rightarrow> None)"

section \<open>Sizing a queue: findObjectFifoSize\<close>

text \<open>
  The two nested loops of \<^verbatim>\<open>findObjectFifoSize\<close>: over the cores of the module that run on
  \<open>tile\<close>, and over the acquire operations in each that name \<open>objFifo\<close>; \<open>maxAcquire\<close> starts
  at 0 and is raised by every larger \<^verbatim>\<open>acqNumber\<close>.
\<close>

definition maxAcquireStep :: "fifo \<Rightarrow> int \<Rightarrow> operation \<Rightarrow> int" where
  "maxAcquireStep objFifo maxAcquire acqOp =
     (if isAcquire acqOp \<and> fifoOf acqOp = Some objFifo \<and> acqNumber acqOp > maxAcquire
      then acqNumber acqOp else maxAcquire)"

definition maxAcquireLoop :: "operation list \<Rightarrow> tile \<Rightarrow> fifo \<Rightarrow> int" where
  "maxAcquireLoop cores tile objFifo =
     foldl (\<lambda>maxAcquire coreOp.
              if tileOfCore coreOp = Some tile
              then foldl (maxAcquireStep objFifo) maxAcquire (walk coreOp)
              else maxAcquire)
       0 cores"

definition findObjectFifoSize ::
  "operation list \<Rightarrow> (fifo \<Rightarrow> ObjectFifoCreateOp) \<Rightarrow> tile \<Rightarrow> fifo \<Rightarrow> int" where
  "findObjectFifoSize cores fifoOps tile objFifo =
     (if size_fifo (fifoOps objFifo) = 0 then 0
      else
        let maxAcquire = maxAcquireLoop cores tile objFifo in
        if maxAcquire > 0 then
          (if maxAcquire = 1 \<and> size_fifo (fifoOps objFifo) = 1 then 1 else maxAcquire + 1)
        else 0)"

section \<open>Creating the elements of a queue\<close>

record BufferOp =
  buf_type :: MemRefType
  buf_tile :: tile
  buf_index :: nat   \<comment> \<open>the symbol name is "buff" followed by this number\<close>

text \<open>
  The state of the pass: the lock analysis, the maps from a queue to its buffers, to its
  locks and to the queues it was split into, the counter behind the buffer names, the
  declarations of the module by handle, and the next handle the builder gives out.
\<close>

record PassState =
  lockAnalysis :: LockAnalysis
  buffersPerFifo :: "fifo \<Rightarrow> BufferOp list"
  locksPerFifo :: "fifo \<Rightarrow> LockOp list"
  splitFifos :: "fifo \<rightharpoonup> fifo list"
  buff_index :: nat
  fifoOps :: "fifo \<Rightarrow> ObjectFifoCreateOp"
  nextHandle :: nat
  objectFifoTiles :: "tile set"

text \<open>The loop of \<^verbatim>\<open>createObjectFifoElements\<close>, with \<open>n\<close> iterations left.\<close>

fun createElements ::
  "nat \<Rightarrow> MemRefType \<Rightarrow> tile \<Rightarrow> LockAnalysis \<Rightarrow> nat \<Rightarrow> BufferOp list \<Rightarrow> LockOp list \<Rightarrow>
     error + (BufferOp list \<times> LockOp list \<times> LockAnalysis \<times> nat)" where
  "createElements 0 elemT t la bi buffers locks = Inr (buffers, locks, la, bi)"
| "createElements (Suc n) elemT t la bi buffers locks =
     (let buff = \<lparr>buf_type = elemT, buf_tile = t, buf_index = bi\<rparr> in
      case allocateLock la t of
        Inl e \<Rightarrow> Inl e
      | Inr (lock, la') \<Rightarrow> createElements n elemT t la' (Suc bi) (buffers @ [buff]) (locks @ [lock]))"

definition createObjectFifoElements :: "PassState \<Rightarrow> fifo \<Rightarrow> error + PassState" where
  "createObjectFifoElements st op =
     (let createOp = fifoOps st op in
      case createElements (nat (size_fifo createOp)) (elemType createOp) (producerTile createOp)
             (lockAnalysis st) (buff_index st) [] [] of
        Inl e \<Rightarrow> Inl e
      | Inr (buffers, locks, la, bi) \<Rightarrow>
          Inr (st\<lparr>lockAnalysis := la, buff_index := bi,
                  buffersPerFifo := (buffersPerFifo st)(op := buffers),
                  locksPerFifo := (locksPerFifo st)(op := locks)\<rparr>))"

section \<open>Splitting a queue\<close>

text \<open>
  The body of the loop over the declarations in \<^verbatim>\<open>runOnOperation\<close>. The topology
  predicate \<^verbatim>\<open>isLegalMemAffinity\<close> is declared outside the sources; \<open>memoryAdjacent p c\<close>
  stands for its value at the coordinates of the tiles \<open>p\<close> and \<open>c\<close>.

  The loop over the consumer tiles: each tile is recorded; a single consumer that is
  adjacent to the producer makes the queue shared and ends the loop; otherwise a queue
  from the consumer tile to itself is created, sized by \<^verbatim>\<open>findObjectFifoSize\<close> on that tile,
  and appended to \<open>splitConsumerFifos\<close>.
\<close>

fun splitConsumers ::
  "(tile \<Rightarrow> tile \<Rightarrow> bool) \<Rightarrow> operation list \<Rightarrow> fifo \<Rightarrow> tile list \<Rightarrow> PassState \<Rightarrow> fifo list \<Rightarrow>
     bool \<times> fifo list \<times> PassState" where
  "splitConsumers memoryAdjacent cores createOp [] st splitConsumerFifos =
     (False, splitConsumerFifos, st)"
| "splitConsumers memoryAdjacent cores createOp (consumerTile # rest) st splitConsumerFifos =
     (let st1 = st\<lparr>objectFifoTiles := insert consumerTile (objectFifoTiles st)\<rparr> in
      if length (consumerTiles (fifoOps st createOp)) = 1 \<and>
         memoryAdjacent (producerTile (fifoOps st createOp)) consumerTile
      then (True, splitConsumerFifos, st1)
      else
        let consMaxAcquire = findObjectFifoSize cores (fifoOps st1) consumerTile createOp;
            consumerFifo = nextHandle st1;
            st2 = st1\<lparr>fifoOps := (fifoOps st1)(consumerFifo :=
                         \<lparr>producerTile = consumerTile, consumerTiles = [consumerTile],
                          elemNumber = consMaxAcquire,
                          elemType = elemType (fifoOps st1 createOp)\<rparr>),
                      nextHandle := Suc consumerFifo\<rparr>
        in splitConsumers memoryAdjacent cores createOp rest st2
             (splitConsumerFifos @ [consumerFifo]))"

definition elaborateFifo ::
  "(tile \<Rightarrow> tile \<Rightarrow> bool) \<Rightarrow> operation list \<Rightarrow> PassState \<Rightarrow> fifo \<Rightarrow> error + PassState" where
  "elaborateFifo memoryAdjacent cores st createOp =
     (let st0 = st\<lparr>objectFifoTiles :=
                     insert (producerTile (fifoOps st createOp)) (objectFifoTiles st)\<rparr> in
      case splitConsumers memoryAdjacent cores createOp
             (consumerTiles (fifoOps st0 createOp)) st0 [] of
        (shared, splitConsumerFifos, st1) \<Rightarrow>
          if shared then createObjectFifoElements st1 createOp
          else
            let prodMaxAcquire =
                  findObjectFifoSize cores (fifoOps st1)
                    (producerTile (fifoOps st1 createOp)) createOp;
                st2 = st1\<lparr>fifoOps := (fifoOps st1)(createOp :=
                             (fifoOps st1 createOp)\<lparr>elemNumber := prodMaxAcquire\<rparr>)\<rparr>
            in (case createObjectFifoElements st2 createOp of
                  Inl e \<Rightarrow> Inl e
                | Inr st3 \<Rightarrow>
                    Inr (st3\<lparr>splitFifos := (splitFifos st3)(createOp \<mapsto> splitConsumerFifos)\<rparr>)))"

section \<open>Substituting the child of a split queue: checkSplitFifo\<close>

text \<open>\<^verbatim>\<open>op->replaceUsesOfWith(from, to)\<close> on the operands of \<open>op\<close>.\<close>

definition replaceUsesOfWith :: "operation \<Rightarrow> val \<Rightarrow> val \<Rightarrow> operation" where
  "replaceUsesOfWith op from to =
     Operation (opId op) (opName op) (map (\<lambda>v. if v = from then to else v) (operands op)) (body op)"

definition checkSplitFifo :: "PassState \<Rightarrow> operation \<Rightarrow> tile \<Rightarrow> error + operation" where
  "checkSplitFifo st op tile =
     (case portOf op of
        None \<Rightarrow> Inl NotAcquireOrRelease
      | Some port \<Rightarrow>
          (case fifoOf op of
             None \<Rightarrow> Inr op
           | Some parentFifo \<Rightarrow>
               (case splitFifos st parentFifo of
                  None \<Rightarrow> Inr op
                | Some children \<Rightarrow>
                    if port = Consume then
                      Inr (foldl (\<lambda>op' splitFifo.
                                    if producerTile (fifoOps st splitFifo) = tile
                                    then replaceUsesOfWith op' (OpResult parentFifo 0) (OpResult splitFifo 0)
                                    else op')
                             op children)
                    else Inr op)))"

section \<open>Checking the port against the tile: checkCorrectPort\<close>

text \<open>
  The walk from the operation up to its enclosing \<^verbatim>\<open>CoreOp\<close> reads the chain of parent
  operations, given here innermost first; the chain ends where \<^verbatim>\<open>getParentOp()\<close> is null.
\<close>

fun enclosingCore :: "operation list \<Rightarrow> tile option" where
  "enclosingCore [] = None"
| "enclosingCore (parent # parents) =
     (case opName parent of CoreOp t \<Rightarrow> Some t | _ \<Rightarrow> enclosingCore parents)"

definition checkCorrectPort :: "PassState \<Rightarrow> operation \<Rightarrow> operation list \<Rightarrow> error + unit" where
  "checkCorrectPort st op parents =
     (case portOf op of
        None \<Rightarrow> Inl NotAcquireOrRelease
      | Some port \<Rightarrow>
          (case enclosingCore parents of
             None \<Rightarrow> Inl NotInsideCore
           | Some coreTile \<Rightarrow>
               (case fifoOf op of
                  None \<Rightarrow> Inl UndefinedBehaviour
                | Some objFifo \<Rightarrow>
                    (case port of
                       Produce \<Rightarrow>
                         if coreTile \<noteq> producerTile (fifoOps st objFifo)
                         then Inl NonProducerTile else Inr ()
                     | Consume \<Rightarrow>
                         if coreTile \<in> set (consumerTiles (fifoOps st objFifo))
                         then Inr () else Inl NonConsumerTile))))"


text \<open>
  The state at the start of \<^verbatim>\<open>runOnOperation\<close>: the analysis of the locks of the module,
  empty maps, and the declarations of the module with the first unused handle.
\<close>

definition initState :: "LockOp list \<Rightarrow> (fifo \<Rightarrow> ObjectFifoCreateOp) \<Rightarrow> nat \<Rightarrow> PassState" where
  "initState lockOps fs n =
     \<lparr>lockAnalysis = LockAnalysis lockOps, buffersPerFifo = (\<lambda>_. []), locksPerFifo = (\<lambda>_. []),
      splitFifos = Map.empty, buff_index = 0, fifoOps = fs, nextHandle = n,
      objectFifoTiles = {}\<rparr>"

section \<open>Example inputs\<close>

text \<open>
  A module with a kernel on tile 5 that acquires one element of queue 0 as its producer and a
  kernel on tile 6 that acquires two as a consumer; no kernel runs on tile 7. Queue 0 is
  declared from tile 5 to the given consumers with depth 2.
\<close>

definition exampleCores :: "operation list" where
  "exampleCores =
     [Operation 10 (CoreOp 5) []
        [Operation 11 (ObjectFifoAcquireOp Produce 1) [OpResult 0 0] []],
      Operation 20 (CoreOp 6) []
        [Operation 21 (ObjectFifoAcquireOp Consume 2) [OpResult 0 0] []]]"

definition exampleState :: "tile list \<Rightarrow> PassState" where
  "exampleState consumers =
     initState []
       (\<lambda>_. \<lparr>producerTile = 5, consumerTiles = consumers, elemNumber = 2, elemType = [16]\<rparr>) 1"

section \<open>Resolving acquire and release operations inside a kernel\<close>

datatype LockAction = Acquire | Release

record UseLockOp =
  use_lock :: LockOp
  use_mode :: int
  use_action :: LockAction

text \<open>
  Where an operation stands: its position in its block and the operations around it,
  innermost first, each with its own position. A block is named by the operation that
  owns it. An operation that the walk of a core reaches has that core among the
  operations around it, so its block and the parent operation of its block exist.
\<close>

record located =
  theOp :: operation
  atPos :: nat
  ancestors :: "(operation \<times> nat) list"

definition getBlock :: "located \<Rightarrow> opid option" where
  "getBlock l = (case ancestors l of [] \<Rightarrow> None | (p, k) # rest \<Rightarrow> Some (opId p))"

text \<open>\<^verbatim>\<open>op->getBlock()->getParentOp()\<close>\<close>

definition getParentOp :: "located \<Rightarrow> located option" where
  "getParentOp l =
     (case ancestors l of
        [] \<Rightarrow> None
      | (p, k) # rest \<Rightarrow> Some \<lparr>theOp = p, atPos = k, ancestors = rest\<rparr>)"

text \<open>\<^verbatim>\<open>a->isBeforeInBlock(b)\<close>, for two operations of one block.\<close>

definition isBeforeInBlock :: "located \<Rightarrow> located \<Rightarrow> bool" where
  "isBeforeInBlock a b = (atPos a < atPos b)"

text \<open>The walk of a core, with the place of every operation it visits.\<close>

function walkAt :: "(operation \<times> nat) list \<Rightarrow> nat \<Rightarrow> operation \<Rightarrow> located list" where
  "walkAt around k (Operation i n vs ops) =
     concat (map (\<lambda>j. walkAt ((Operation i n vs ops, k) # around) j (ops ! j)) [0..<length ops])
     @ [\<lparr>theOp = Operation i n vs ops, atPos = k, ancestors = around\<rparr>]"
  by pat_completeness auto
termination
  by (relation "measure (\<lambda>(around, k, op). size op)")
     (auto simp: less_Suc_eq_le intro!: size_list_estimation' [where y = "size (ops ! j)" for ops j])

text \<open>
  The per-core maps of \<^verbatim>\<open>runOnOperation\<close>. A \<^verbatim>\<open>DenseMap\<close> with a vector value is empty
  by default; the cursor maps are tested with \<^verbatim>\<open>find\<close> and so keep track of their keys.
  \<open>emitted\<close> lists the lock operations created, each with the operation it is inserted
  after, in the order of creation.
\<close>

record CoreState =
  subviews :: "opid \<rightharpoonup> BufferOp list"
  acquiresPerFifo :: "fifo \<Rightarrow> int list"
  releaseOps :: "located list"
  acqPerFifo :: "fifo \<rightharpoonup> int"
  relPerFifo :: "fifo \<rightharpoonup> int"
  emitted :: "(opid \<times> UseLockOp) list"

definition emptyCoreState :: CoreState where
  "emptyCoreState =
     \<lparr>subviews = Map.empty, acquiresPerFifo = (\<lambda>_. []), releaseOps = [],
      acqPerFifo = Map.empty, relPerFifo = Map.empty, emitted = []\<rparr>"

text \<open>The remainder of C++: the quotient is truncated, the sign is that of the dividend.\<close>

definition crem :: "int \<Rightarrow> int \<Rightarrow> int" where
  "crem a b = sgn a * (\<bar>a\<bar> mod \<bar>b\<bar>)"

text \<open>
  \<^verbatim>\<open>createUseLocks\<close> with \<open>n\<close> locks left to create. \<open>acc\<close> is the cursor map passed by
  reference; reading a missing key of it gives 0. An index outside the vector of locks
  and a remainder by zero are undefined.
\<close>

fun createUseLocks ::
  "PassState \<Rightarrow> opid \<Rightarrow> fifo \<Rightarrow> (fifo \<rightharpoonup> int) \<Rightarrow> nat \<Rightarrow> int \<Rightarrow> LockAction \<Rightarrow>
     (opid \<times> UseLockOp) list \<Rightarrow> error + ((fifo \<rightharpoonup> int) \<times> (opid \<times> UseLockOp) list)" where
  "createUseLocks st anchor op acc 0 lockMode lockAction out = Inr (acc, out)"
| "createUseLocks st anchor op acc (Suc n) lockMode lockAction out =
     (let lockID = (case acc op of None \<Rightarrow> 0 | Some v \<Rightarrow> v) in
      if lockID < 0 \<or> nat lockID \<ge> length (locksPerFifo st op) \<or> elemNumber (fifoOps st op) = 0
      then Inl UndefinedBehaviour
      else createUseLocks st anchor op
             (acc(op \<mapsto> crem (lockID + 1) (elemNumber (fifoOps st op)))) n lockMode lockAction
             (out @ [(anchor, \<lparr>use_lock = locksPerFifo st op ! nat lockID,
                               use_mode = lockMode, use_action = lockAction\<rparr>)]))"

text \<open>\<^verbatim>\<open>updateAndReturnIndex\<close>: a missing key is entered with 0.\<close>

definition updateAndReturnIndex :: "(fifo \<rightharpoonup> int) \<Rightarrow> fifo \<Rightarrow> int \<times> (fifo \<rightharpoonup> int)" where
  "updateAndReturnIndex m op = (case m op of None \<Rightarrow> (0, m(op \<mapsto> 0)) | Some v \<Rightarrow> (v, m))"

text \<open>
  The body of the walk over the release operations of a core on \<open>tile\<close>: the child of a
  split queue is substituted, the port is checked, the locks are released from the release
  cursor on, and the operation (as rewritten) is appended to \<open>releaseOps\<close>.
\<close>

definition resolveRelease :: "PassState \<Rightarrow> tile \<Rightarrow> CoreState \<Rightarrow> located \<Rightarrow> error + CoreState" where
  "resolveRelease st tile cs releaseOp =
     (case checkSplitFifo st (theOp releaseOp) tile of
        Inl e \<Rightarrow> Inl e
      | Inr relOp' \<Rightarrow>
          (case checkCorrectPort st relOp' (map fst (ancestors releaseOp)) of
             Inl e \<Rightarrow> Inl e
           | Inr _ \<Rightarrow>
               (case (fifoOf relOp', portOf relOp') of
                  (Some op, Some port) \<Rightarrow>
                    (let (idx, relPerFifo') = updateAndReturnIndex (relPerFifo cs) op;
                         numLocks = relNumber relOp';
                         lockMode = (if port = Produce then 1 else 0)
                     in case createUseLocks st (opId relOp') op relPerFifo' (nat numLocks) lockMode
                               Release (emitted cs) of
                          Inl e \<Rightarrow> Inl e
                        | Inr (relPerFifo'', out) \<Rightarrow>
                            Inr (cs\<lparr>relPerFifo := relPerFifo'', emitted := out,
                                    releaseOps := releaseOps cs @ [releaseOp\<lparr>theOp := relOp'\<rparr>]\<rparr>))
                | _ \<Rightarrow> Inl UndefinedBehaviour)))"

text \<open>
  Whether a release on the same queue is counted at an acquire: the nested tests of the
  loop over \<open>releaseOps\<close>. In one block the acquire must not be before the release. Else,
  if the release is in the block of the operation that owns the block of the acquire, that
  operation must not be before the release. Else, if the acquire is in the block of the
  operation that owns the block of the release, the acquire must not be before that
  operation. Anything else is not counted.
\<close>

definition releasedBefore :: "located \<Rightarrow> located \<Rightarrow> bool" where
  "releasedBefore acquireOp relOp =
     (if getBlock acquireOp = getBlock relOp then \<not> isBeforeInBlock acquireOp relOp
      else
        (case getParentOp acquireOp of
           None \<Rightarrow> False
         | Some acqBlockDefOp \<Rightarrow>
             if getBlock relOp = getBlock acqBlockDefOp
             then \<not> isBeforeInBlock acqBlockDefOp relOp
             else
               (case getParentOp relOp of
                  None \<Rightarrow> False
                | Some relBlockDefOp \<Rightarrow>
                    if getBlock acquireOp = getBlock relBlockDefOp
                    then \<not> isBeforeInBlock acquireOp relBlockDefOp
                    else False)))"

text \<open>
  \<^verbatim>\<open>releaseOps.erase(releaseOps.begin())\<close> on the storage of the vector and its size: the
  elements after the first move down by one, and the slot past the new end keeps what it
  held (the elements are operation handles, which are trivially copyable).
\<close>

definition eraseBegin :: "'a list \<Rightarrow> nat \<Rightarrow> 'a list \<times> nat" where
  "eraseBegin storage n = (tl (take n storage) @ drop (n - 1) storage, n - 1)"

text \<open>
  The loop \<^verbatim>\<open>for (auto relOp : releaseOps)\<close>. The range-based loop fixes its end before the
  first iteration and steps through the storage by position, so it makes as many
  iterations as the vector had elements at the start, and iteration \<open>i\<close> reads slot \<open>i\<close> of
  the storage as it is then. A counted release adds its count to \<open>numRel\<close> and erases the
  first element of the vector. The result is \<open>numRel\<close> and the vector after the loop.
\<close>

definition scanStep :: "located \<Rightarrow> fifo \<Rightarrow> located list \<times> nat \<times> int \<Rightarrow> nat \<Rightarrow> located list \<times> nat \<times> int" where
  "scanStep acquireOp op s i =
     (case s of (storage, n, numRel) \<Rightarrow>
        let relOp = storage ! i in
        if fifoOf (theOp relOp) = Some op \<and> releasedBefore acquireOp relOp
        then (case eraseBegin storage n of
                (storage', n') \<Rightarrow> (storage', n', numRel + relNumber (theOp relOp)))
        else (storage, n, numRel))"

definition scanReleaseOps :: "located \<Rightarrow> fifo \<Rightarrow> located list \<Rightarrow> int \<times> located list" where
  "scanReleaseOps acquireOp op rels =
     (case foldl (scanStep acquireOp op) (rels, length rels, 0) [0..<length rels] of
        (storage, n, numRel) \<Rightarrow> (numRel, take n storage))"

text \<open>
  "track indices of elements to acquire": when the queue has indices acquired by an
  earlier acquire, they are taken over, the assertion compares \<open>numRel\<close> (as \<^verbatim>\<open>size_t\<close>)
  with their number, and \<open>numRel\<close> of them are erased from the front; when it has none,
  the list starts empty and \<open>numRel\<close> is not looked at.
\<close>

definition trackAcquired :: "int list \<Rightarrow> int \<Rightarrow> error + int list" where
  "trackAcquired acquired numRel =
     (if length acquired \<noteq> 0 then
        (if 0 \<le> numRel \<and> nat numRel \<le> length acquired
         then Inr (drop (nat numRel) acquired)
         else Inl ReleaseMoreThanAcquired)
      else Inr [])"

text \<open>The loop that appends the \<open>numCreate\<close> new indices, from \<open>start\<close> on.\<close>

fun pushIndices :: "nat \<Rightarrow> int \<Rightarrow> int \<Rightarrow> int list \<Rightarrow> int list" where
  "pushIndices 0 start elemN acquiredIndices = acquiredIndices"
| "pushIndices (Suc n) start elemN acquiredIndices =
     pushIndices n (crem (start + 1) elemN) elemN (acquiredIndices @ [start])"

text \<open>\<^verbatim>\<open>&buffersPerFifo[op][index]\<close> for every acquired index.\<close>

definition subviewRefs :: "BufferOp list \<Rightarrow> int list \<Rightarrow> error + BufferOp list" where
  "subviewRefs buffers acquiredIndices =
     (if \<forall>index \<in> set acquiredIndices. 0 \<le> index \<and> nat index < length buffers
      then Inr (map (\<lambda>index. buffers ! nat index) acquiredIndices)
      else Inl UndefinedBehaviour)"

text \<open>The body of the walk over the acquire operations of a core on \<open>tile\<close>.\<close>

definition resolveAcquire :: "PassState \<Rightarrow> tile \<Rightarrow> CoreState \<Rightarrow> located \<Rightarrow> error + CoreState" where
  "resolveAcquire st tile cs acquireOp =
     (case checkSplitFifo st (theOp acquireOp) tile of
        Inl e \<Rightarrow> Inl e
      | Inr acqOp' \<Rightarrow>
          (case checkCorrectPort st acqOp' (map fst (ancestors acquireOp)) of
             Inl e \<Rightarrow> Inl e
           | Inr _ \<Rightarrow>
               (case (fifoOf acqOp', portOf acqOp') of
                  (Some op, Some port) \<Rightarrow>
                    (let (start, acqPerFifo') = updateAndReturnIndex (acqPerFifo cs) op;
                         (numRel, releaseOps') =
                            scanReleaseOps (acquireOp\<lparr>theOp := acqOp'\<rparr>) op (releaseOps cs)
                     in case trackAcquired (acquiresPerFifo cs op) numRel of
                          Inl e \<Rightarrow> Inl e
                        | Inr acquiredIndices \<Rightarrow>
                            (let numLocks = acqNumber acqOp';
                                 lockMode = (if port = Produce then 0 else 1);
                                 alreadyAcq = int (length acquiredIndices);
                                 numCreate = (if numLocks > alreadyAcq then numLocks - alreadyAcq else 0)
                             in case createUseLocks st (opId acqOp') op acqPerFifo' (nat numCreate)
                                       lockMode Acquire (emitted cs) of
                                  Inl e \<Rightarrow> Inl e
                                | Inr (acqPerFifo'', out) \<Rightarrow>
                                    (let acquiredIndices' =
                                           pushIndices (nat numCreate) start
                                             (elemNumber (fifoOps st op)) acquiredIndices
                                     in case subviewRefs (buffersPerFifo st op) acquiredIndices' of
                                          Inl e \<Rightarrow> Inl e
                                        | Inr refs \<Rightarrow>
                                            Inr (cs\<lparr>acqPerFifo := acqPerFifo'', emitted := out,
                                                    releaseOps := releaseOps',
                                                    subviews := (subviews cs)(opId acqOp' \<mapsto> refs),
                                                    acquiresPerFifo :=
                                                      (acquiresPerFifo cs)(op := acquiredIndices')\<rparr>))))
                | _ \<Rightarrow> Inl UndefinedBehaviour)))"

text \<open>
  The two walks over a core: all release operations first, then all acquire operations,
  each in the order of the walk, stopping at the first fatal error.
\<close>

fun resolveAll ::
  "(CoreState \<Rightarrow> located \<Rightarrow> error + CoreState) \<Rightarrow> CoreState \<Rightarrow> located list \<Rightarrow> error + CoreState" where
  "resolveAll f cs [] = Inr cs"
| "resolveAll f cs (l # ls) = (case f cs l of Inl e \<Rightarrow> Inl e | Inr cs' \<Rightarrow> resolveAll f cs' ls)"

definition resolveCore :: "PassState \<Rightarrow> operation \<Rightarrow> error + CoreState" where
  "resolveCore st coreOp =
     (case tileOfCore coreOp of
        None \<Rightarrow> Inl NotInsideCore
      | Some tile \<Rightarrow>
          (case resolveAll (resolveRelease st tile) emptyCoreState
                  (filter (\<lambda>l. isRelease (theOp l)) (walkAt [] 0 coreOp)) of
             Inl e \<Rightarrow> Inl e
           | Inr cs \<Rightarrow>
               resolveAll (resolveAcquire st tile) cs
                 (filter (\<lambda>l. isAcquire (theOp l)) (walkAt [] 0 coreOp))))"

text \<open>
  Two shared queues, 0 and 1, from tile 5 to the adjacent tile 6, of depth 2, after their
  elements are created: the buffers 0 to 3 and the locks 0 to 3 of tile 5.
\<close>

definition twoFifoState :: PassState where
  "twoFifoState =
     \<lparr>lockAnalysis = (\<lambda>(t, i). if t = 5 \<and> 0 \<le> i \<and> i < 4 then 1 else 0),
      buffersPerFifo = (\<lambda>f. if f = 0 then [\<lparr>buf_type = [16], buf_tile = 5, buf_index = 0\<rparr>,
                                          \<lparr>buf_type = [16], buf_tile = 5, buf_index = 1\<rparr>]
                           else if f = 1 then [\<lparr>buf_type = [16], buf_tile = 5, buf_index = 2\<rparr>,
                                               \<lparr>buf_type = [16], buf_tile = 5, buf_index = 3\<rparr>]
                           else []),
      locksPerFifo = (\<lambda>f. if f = 0 then [\<lparr>lock_tile = 5, lock_lockID = 0\<rparr>, \<lparr>lock_tile = 5, lock_lockID = 1\<rparr>]
                         else if f = 1 then [\<lparr>lock_tile = 5, lock_lockID = 2\<rparr>, \<lparr>lock_tile = 5, lock_lockID = 3\<rparr>]
                         else []),
      splitFifos = Map.empty,
      buff_index = 4,
      fifoOps = (\<lambda>_. \<lparr>producerTile = 5, consumerTiles = [6], elemNumber = 2, elemType = [16]\<rparr>),
      nextHandle = 2,
      objectFifoTiles = {5, 6}\<rparr>"

text \<open>
  A kernel on tile 5 that, as producer, acquires one element of queue 0 and one of queue 1,
  releases one of each, and acquires one of queue 1 again; \<open>extra\<close> follows.
\<close>

definition twoFifoCore :: "operation list \<Rightarrow> operation" where
  "twoFifoCore extra =
     Operation 10 (CoreOp 5) []
       ([Operation 11 (ObjectFifoAcquireOp Produce 1) [OpResult 0 0] [],
         Operation 12 (ObjectFifoAcquireOp Produce 1) [OpResult 1 0] [],
         Operation 13 (ObjectFifoReleaseOp Produce 1) [OpResult 0 0] [],
         Operation 14 (ObjectFifoReleaseOp Produce 1) [OpResult 1 0] [],
         Operation 15 (ObjectFifoAcquireOp Produce 1) [OpResult 1 0] []] @ extra)"

text \<open>A kernel on tile 5 that releases an element of queue 1 before it acquires any.\<close>

definition releaseFirstCore :: operation where
  "releaseFirstCore =
     Operation 10 (CoreOp 5) []
       [Operation 11 (ObjectFifoReleaseOp Produce 1) [OpResult 1 0] [],
        Operation 12 (ObjectFifoAcquireOp Produce 1) [OpResult 1 0] []]"

text \<open>A kernel on tile 5 that acquires one element of queue 1 and releases two.\<close>

definition overReleaseCore :: operation where
  "overReleaseCore =
     Operation 10 (CoreOp 5) []
       [Operation 11 (ObjectFifoAcquireOp Produce 1) [OpResult 1 0] [],
        Operation 12 (ObjectFifoReleaseOp Produce 2) [OpResult 1 0] [],
        Operation 13 (ObjectFifoAcquireOp Produce 1) [OpResult 1 0] []]"

section \<open>Building a DMA chain: createBdBlock and createDMA\<close>

text \<open>
  The body of a \<^verbatim>\<open>MemOp\<close> is a region of blocks, each with a name and a list of
  operations that ends in its terminator. \<^verbatim>\<open>DMAStartOp\<close> has the successors \<open>dest\<close>
  (number 0) and \<open>chain\<close> (number 1), a branch has one, \<^verbatim>\<open>EndOp\<close> has none.
\<close>

datatype DMAChan = MM2S0 | MM2S1 | S2MM0 | S2MM1

type_synonym blockid = nat

datatype memop =
    DMAStartOp DMAChan blockid blockid
  | MemUseLockOp LockOp int LockAction
  | DMABDOp BufferOp int int int
  | BranchOp blockid
  | EndOp

record Block =
  block_id :: blockid
  block_ops :: "memop list"

record MemOp =
  mem_tile :: tile
  mem_body :: "Block list"

text \<open>The memory operations of the module in order, and the next unused block name.\<close>

record DmaState =
  memOps :: "MemOp list"
  nextBlock :: blockid

text \<open>
  \<^verbatim>\<open>createBdBlock\<close>: the four operations created in the block; \<open>len\<close> is the product of
  the shape of the buffer, the offset is 0, and the last operand of \<^verbatim>\<open>DMABDOp\<close> is 0.
\<close>

definition createBdBlock :: "int \<Rightarrow> BufferOp \<Rightarrow> LockOp \<Rightarrow> blockid \<Rightarrow> memop list" where
  "createBdBlock lockMode buff lock succ =
     (let acqMode = (if lockMode = 0 then 1 else 0);
          relMode = (if lockMode = 0 then 0 else 1);
          offset = 0;
          len = foldl (\<lambda>len i. len * i) 1 (buf_type buff)
      in [MemUseLockOp lock acqMode Acquire,
          DMABDOp buff offset len 0,
          MemUseLockOp lock relMode Release,
          BranchOp succ])"

text \<open>\<^verbatim>\<open>findEndOpBlock\<close>: the last block of the region that holds an \<^verbatim>\<open>EndOp\<close>.\<close>

definition findEndOpBlock :: "Block list \<Rightarrow> blockid option" where
  "findEndOpBlock blocks =
     foldl (\<lambda>endBlock bl. if EndOp \<in> set (block_ops bl) then Some (block_id bl) else endBlock)
       None blocks"

fun successors :: "memop \<Rightarrow> blockid list" where
  "successors (DMAStartOp c dest chain) = [dest, chain]"
| "successors (BranchOp succ) = [succ]"
| "successors _ = []"

text \<open>
  \<^verbatim>\<open>block->getSinglePredecessor()\<close>: the uses of the block as a successor of a terminator
  are its predecessors; the result is the one block using it when there is exactly one use,
  and null otherwise.
\<close>

definition predecessors :: "Block list \<Rightarrow> blockid \<Rightarrow> blockid list" where
  "predecessors blocks b =
     concat (map (\<lambda>bl. case block_ops bl of
                          [] \<Rightarrow> []
                        | ops \<Rightarrow> map (\<lambda>_. block_id bl) (filter (\<lambda>s. s = b) (successors (last ops))))
                 blocks)"

definition getSinglePredecessor :: "Block list \<Rightarrow> blockid \<Rightarrow> blockid option" where
  "getSinglePredecessor blocks b = (case predecessors blocks b of [p] \<Rightarrow> Some p | _ \<Rightarrow> None)"

text \<open>
  \<^verbatim>\<open>lastDmaBlock->getTerminator()->setSuccessor(dmaBlock, 1)\<close>: only a terminator with two
  successors has a successor number 1.
\<close>

definition setSuccessor1 :: "Block \<Rightarrow> blockid \<Rightarrow> error + Block" where
  "setSuccessor1 bl dmaBlock =
     (case block_ops bl of
        [] \<Rightarrow> Inl UndefinedBehaviour
      | ops \<Rightarrow>
          (case last ops of
             DMAStartOp c dest chain \<Rightarrow>
               Inr (bl\<lparr>block_ops := butlast ops @ [DMAStartOp c dest dmaBlock]\<rparr>)
           | _ \<Rightarrow> Inl UndefinedBehaviour))"

fun relink :: "Block list \<Rightarrow> blockid \<Rightarrow> blockid \<Rightarrow> error + Block list" where
  "relink [] lastDmaBlock dmaBlock = Inr []"
| "relink (bl # bls) lastDmaBlock dmaBlock =
     (case relink bls lastDmaBlock dmaBlock of
        Inl e \<Rightarrow> Inl e
      | Inr bls' \<Rightarrow>
          if block_id bl = lastDmaBlock
          then (case setSuccessor1 bl dmaBlock of Inl e \<Rightarrow> Inl e | Inr bl' \<Rightarrow> Inr (bl' # bls'))
          else Inr (bl # bls'))"

text \<open>
  The loop "create Bd blocks" with \<open>n\<close> iterations left: the block \<open>currBlock\<close> is filled from
  buffer and lock number \<open>blockIndex\<close>; its successor is \<open>bdBlock\<close> in the last iteration and
  a new block, placed before the end block, in every other. The result lists the filled
  blocks in the order of their creation.
\<close>

fun createBdBlocks ::
  "nat \<Rightarrow> int \<Rightarrow> BufferOp list \<Rightarrow> LockOp list \<Rightarrow> nat \<Rightarrow> blockid \<Rightarrow> blockid \<Rightarrow> blockid \<Rightarrow>
     Block list \<Rightarrow> error + (Block list \<times> blockid)" where
  "createBdBlocks 0 lockMode buffers locks blockIndex currBlock bdBlock fresh built = Inr (built, fresh)"
| "createBdBlocks (Suc n) lockMode buffers locks blockIndex currBlock bdBlock fresh built =
     (let (succ, fresh') = (if n = 0 then (bdBlock, fresh) else (fresh, Suc fresh)) in
      if blockIndex < length buffers \<and> blockIndex < length locks
      then createBdBlocks n lockMode buffers locks (Suc blockIndex) succ bdBlock fresh'
             (built @ [\<lparr>block_id = currBlock,
                         block_ops = createBdBlock lockMode (buffers ! blockIndex)
                                       (locks ! blockIndex) succ\<rparr>])
      else Inl UndefinedBehaviour)"

text \<open>The search for the \<^verbatim>\<open>MemOp\<close> of a tile: the position of the first one.\<close>

fun findMemOp :: "MemOp list \<Rightarrow> tile \<Rightarrow> nat option" where
  "findMemOp [] t = None"
| "findMemOp (memOp # rest) t =
     (if mem_tile memOp = t then Some 0 else map_option Suc (findMemOp rest t))"

text \<open>
  The part of \<^verbatim>\<open>createDMA\<close> that works on the region of the \<^verbatim>\<open>MemOp\<close>: the DMA
  block and the first Bd block are created before the end block, the DMA block starts the
  channel with the Bd block as destination and the end block as chain, the single
  predecessor of the end block (if there is one) gets the DMA block as its successor 1, and
  the Bd blocks are filled.
\<close>

definition createDMABlocks ::
  "Block list \<Rightarrow> blockid \<Rightarrow> DMAChan \<Rightarrow> int \<Rightarrow> int \<Rightarrow> BufferOp list \<Rightarrow> LockOp list \<Rightarrow>
     error + (Block list \<times> blockid)" where
  "createDMABlocks blocks fresh channelMode lockMode numBlocks buffers locks =
     (case findEndOpBlock blocks of
        None \<Rightarrow> Inl UndefinedBehaviour
      | Some endBlock \<Rightarrow>
          (let lastDmaBlock = getSinglePredecessor blocks endBlock;
               dmaBlock = fresh;
               bdBlock = Suc fresh;
               dma = \<lparr>block_id = dmaBlock, block_ops = [DMAStartOp channelMode bdBlock endBlock]\<rparr>;
               before = takeWhile (\<lambda>bl. block_id bl \<noteq> endBlock) blocks;
               after = dropWhile (\<lambda>bl. block_id bl \<noteq> endBlock) blocks
           in case (case lastDmaBlock of
                      None \<Rightarrow> Inr (before, after)
                    | Some l \<Rightarrow>
                        (case relink before l dmaBlock of
                           Inl e \<Rightarrow> Inl e
                         | Inr before' \<Rightarrow>
                             (case relink after l dmaBlock of
                                Inl e \<Rightarrow> Inl e
                              | Inr after' \<Rightarrow> Inr (before', after')))) of
                Inl e \<Rightarrow> Inl e
              | Inr (before', after') \<Rightarrow>
                  if numBlocks \<le> 0
                  then Inr (before' @ [dma, \<lparr>block_id = bdBlock, block_ops = []\<rparr>] @ after',
                            Suc (Suc fresh))
                  else
                    (case createBdBlocks (nat numBlocks) lockMode buffers locks 0 bdBlock bdBlock
                            (Suc (Suc fresh)) [] of
                       Inl e \<Rightarrow> Inl e
                     | Inr (bds, fresh') \<Rightarrow> Inr (before' @ [dma] @ bds @ after', fresh'))))"

text \<open>
  A pointer to a local variable: the handle that the variable holds, and whether the
  variable is still in scope. Reading through a pointer to a variable whose scope has
  ended, or through null, is undefined behaviour.
\<close>

datatype 'a pointer = nullptr | AddressOf 'a bool

definition endOfScope :: "'a pointer \<Rightarrow> 'a pointer" where
  "endOfScope p = (case p of nullptr \<Rightarrow> nullptr | AddressOf x alive \<Rightarrow> AddressOf x False)"

definition deref :: "'a pointer \<Rightarrow> error + 'a" where
  "deref p =
     (case p of
        nullptr \<Rightarrow> Inl UndefinedBehaviour
      | AddressOf x alive \<Rightarrow> if alive then Inr x else Inl UndefinedBehaviour)"

text \<open>
  \<^verbatim>\<open>createDMA\<close>: nothing for depth 0, then the assertion on the depth. The search
  \<^verbatim>\<open>for (auto memOp : m.getOps<MemOp>())\<close> stores \<^verbatim>\<open>&memOp\<close>, the address of the loop
  variable (a copy of the handle that lives for one iteration), in \<^verbatim>\<open>producerMem\<close> and
  leaves the loop. When the search found nothing, a new \<^verbatim>\<open>MemOp\<close> with an end block is
  created at the end of the module in the local \<^verbatim>\<open>newMemOp\<close> of the block of the
  \<^verbatim>\<open>if\<close>, and \<^verbatim>\<open>producerMem\<close> is set to \<^verbatim>\<open>&newMemOp\<close>. After both scopes have ended,
  \<^verbatim>\<open>findEndOpBlock(producerMem)\<close> reads \<^verbatim>\<open>memOp->body()\<close> through the pointer, and the
  blocks are built in the region read. A handle is the position of the \<^verbatim>\<open>MemOp\<close> in the
  module.
\<close>

definition createDMA :: "PassState \<Rightarrow> DmaState \<Rightarrow> fifo \<Rightarrow> DMAChan \<Rightarrow> int \<Rightarrow> error + DmaState" where
  "createDMA st ds op channelMode lockMode =
     (let numBlocks = size_fifo (fifoOps st op) in
      if numBlocks = 0 then Inr ds
      else if \<not> numBlocks \<le> 14 then Inl TooManyBlocks
      else
        (let searched =
               (case findMemOp (memOps ds) (producerTile (fifoOps st op)) of
                  Some memOp \<Rightarrow> endOfScope (AddressOf memOp True)
                | None \<Rightarrow> nullptr);
             (mems, producerMem, fresh) =
               (if searched = nullptr
                then
                  (let newMemOp = length (memOps ds) in
                   (memOps ds @ [\<lparr>mem_tile = producerTile (fifoOps st op),
                                   mem_body = [\<lparr>block_id = nextBlock ds, block_ops = [EndOp]\<rparr>]\<rparr>],
                    endOfScope (AddressOf newMemOp True), Suc (nextBlock ds)))
                else (memOps ds, searched, nextBlock ds))
         in case deref producerMem of
              Inl e \<Rightarrow> Inl e
            | Inr k \<Rightarrow>
                (case createDMABlocks (mem_body (mems ! k)) fresh channelMode lockMode numBlocks
                        (buffersPerFifo st op) (locksPerFifo st op) of
                   Inl e \<Rightarrow> Inl e
                 | Inr (blocks', fresh') \<Rightarrow>
                     Inr (ds\<lparr>memOps := mems[k := (mems ! k)\<lparr>mem_body := blocks'\<rparr>],
                             nextBlock := fresh'\<rparr>))))"

text \<open>
  How a block of the region looks after \<^verbatim>\<open>setSuccessor(dmaBlock, 1)\<close> on the terminator of
  \<open>lastDmaBlock\<close>: that block keeps its name and its operations, except that the chain
  successor of its \<^verbatim>\<open>DMAStartOp\<close> is the new DMA block; every other block is as it was.
\<close>

definition relinked :: "blockid \<Rightarrow> blockid \<Rightarrow> Block \<Rightarrow> Block \<Rightarrow> bool" where
  "relinked lastDmaBlock dmaBlock old new =
     (block_id new = block_id old \<and>
      (if block_id old = lastDmaBlock
       then (case last (block_ops old) of
               DMAStartOp c dest chain \<Rightarrow>
                 block_ops old \<noteq> [] \<and>
                 block_ops new = butlast (block_ops old) @ [DMAStartOp c dest dmaBlock]
             | _ \<Rightarrow> False)
       else new = old))"

definition startsDMA :: "Block \<Rightarrow> bool" where
  "startsDMA bl =
     (block_ops bl \<noteq> [] \<and> (case last (block_ops bl) of DMAStartOp c dest chain \<Rightarrow> True | _ \<Rightarrow> False))"

text \<open>
  A module whose DMA region of tile 5 holds one chain, on channel MM2S0 with lock mode 0
  over two buffers: the DMA block 1, the Bd blocks 2 and 3, and the end block 0.
\<close>

definition oneChainDma :: DmaState where
  "oneChainDma =
     \<lparr>memOps =
        [\<lparr>mem_tile = 5,
          mem_body =
            [\<lparr>block_id = 1, block_ops = [DMAStartOp MM2S0 2 0]\<rparr>,
             \<lparr>block_id = 2, block_ops =
                [MemUseLockOp \<lparr>lock_tile = 5, lock_lockID = 0\<rparr> 1 Acquire,
                 DMABDOp \<lparr>buf_type = [16], buf_tile = 5, buf_index = 0\<rparr> 0 16 0,
                 MemUseLockOp \<lparr>lock_tile = 5, lock_lockID = 0\<rparr> 0 Release,
                 BranchOp 3]\<rparr>,
             \<lparr>block_id = 3, block_ops =
                [MemUseLockOp \<lparr>lock_tile = 5, lock_lockID = 1\<rparr> 1 Acquire,
                 DMABDOp \<lparr>buf_type = [16], buf_tile = 5, buf_index = 1\<rparr> 0 16 0,
                 MemUseLockOp \<lparr>lock_tile = 5, lock_lockID = 1\<rparr> 0 Release,
                 BranchOp 2]\<rparr>,
             \<lparr>block_id = 0, block_ops = [EndOp]\<rparr>]\<rparr>],
      nextBlock = 4\<rparr>"

section \<open>Unrolling the loops around acquire operations\<close>

text \<open>
  \<^verbatim>\<open>computeLCM\<close> over a \<^verbatim>\<open>std::set<int>\<close>, which is iterated in ascending order and holds
  no value twice: the set is the ascending list of its values. The division of C++
  truncates towards zero; \<^verbatim>\<open>std::gcd\<close> is the non-negative greatest common divisor.
\<close>

definition cdiv :: "int \<Rightarrow> int \<Rightarrow> int" where
  "cdiv a b = sgn a * sgn b * (\<bar>a\<bar> div \<bar>b\<bar>)"

definition computeLCM :: "int list \<Rightarrow> int" where
  "computeLCM values = foldl (\<lambda>lcm i. cdiv (i * lcm) (gcd i lcm)) 1 values"

definition LOOP_VAR_DEPENDENCY :: int where
  "LOOP_VAR_DEPENDENCY = - 2"

text \<open>
  The dependency of one operand in \<^verbatim>\<open>identifyDependencies\<close>: the induction variable of the
  loop (argument 0 of its body); else the position of the defining operation when that is
  an operation of the body block, read from \<open>opIndex\<close> with \<^verbatim>\<open>operator[]\<close> (0 for a key not
  yet entered); else -1. A value without a defining operation that is not the induction
  variable is dereferenced as null.
\<close>

definition operandDependency ::
  "opid \<Rightarrow> opid list \<Rightarrow> (opid \<rightharpoonup> int) \<Rightarrow> val \<Rightarrow> error + int" where
  "operandDependency forLoop bodyIds opIndex operand =
     (if operand = BlockArg forLoop 0 then Inr LOOP_VAR_DEPENDENCY
      else
        (case getDefiningOp operand of
           None \<Rightarrow> Inl UndefinedBehaviour
         | Some definingOp \<Rightarrow>
             if definingOp \<in> set bodyIds
             then Inr (case opIndex definingOp of None \<Rightarrow> 0 | Some k \<Rightarrow> k)
             else Inr (- 1)))"

fun mapE :: "('a \<Rightarrow> error + 'b) \<Rightarrow> 'a list \<Rightarrow> error + 'b list" where
  "mapE f [] = Inr []"
| "mapE f (x # xs) =
     (case f x of
        Inl e \<Rightarrow> Inl e
      | Inr y \<Rightarrow> (case mapE f xs of Inl e \<Rightarrow> Inl e | Inr ys \<Rightarrow> Inr (y # ys)))"

text \<open>
  The loop of \<^verbatim>\<open>identifyDependencies\<close> over the operations of the body without its
  terminator: the operation is entered in \<open>opIndex\<close> at \<open>index\<close>, then its operands are
  classified.
\<close>

fun identifyDependencies ::
  "opid \<Rightarrow> opid list \<Rightarrow> operation list \<Rightarrow> int \<Rightarrow> (opid \<rightharpoonup> int) \<Rightarrow> int list list \<Rightarrow>
     error + int list list" where
  "identifyDependencies forLoop bodyIds [] index opIndex dependencies = Inr dependencies"
| "identifyDependencies forLoop bodyIds (op # rest) index opIndex dependencies =
     (let opIndex' = opIndex(opId op \<mapsto> index) in
      case mapE (operandDependency forLoop bodyIds opIndex') (operands op) of
        Inl e \<Rightarrow> Inl e
      | Inr dependecyIndices \<Rightarrow>
          identifyDependencies forLoop bodyIds rest (index + 1) opIndex'
            (dependencies @ [dependecyIndices]))"

text \<open>
  \<^verbatim>\<open>duplicateBlock\<close>. The builder gives every operation it creates a new identity, taken
  from the counter \<open>fresh\<close>; the operations nested in a cloned operation are copied with it.

  One operand of a clone: a dependency \<open>\<ge> 0\<close> is replaced by result 0 of the operation with
  that index among the clones of the current duplication; a dependency on the induction
  variable is replaced by the sum of \<open>base\<close> and a new constant \<open>increment_value\<close>, both
  inserted by the builder; any other operand stays.
\<close>

definition patchOperand ::
  "int \<Rightarrow> val \<Rightarrow> opid list \<Rightarrow> val \<Rightarrow> int \<Rightarrow> nat \<Rightarrow> error + (val \<times> operation list \<times> nat)" where
  "patchOperand originalDependencyIndex operand duplicatedOperations base increment_value fresh =
     (if originalDependencyIndex \<ge> 0 then
        (if nat originalDependencyIndex < length duplicatedOperations
         then Inr (OpResult (duplicatedOperations ! nat originalDependencyIndex) 0, [], fresh)
         else Inl UndefinedBehaviour)
      else if originalDependencyIndex = LOOP_VAR_DEPENDENCY then
        Inr (OpResult (Suc fresh) 0,
             [Operation fresh (ConstantOp increment_value) [] [],
              Operation (Suc fresh) AddIOp [base, OpResult fresh 0] []],
             Suc (Suc fresh))
      else Inr (operand, [], fresh))"

text \<open>The loop over the operands of one clone; \<open>deps\<close> is \<^verbatim>\<open>dependencies[originalIndex]\<close>.\<close>

fun patchOperands ::
  "int list \<Rightarrow> val list \<Rightarrow> opid list \<Rightarrow> val \<Rightarrow> int \<Rightarrow> nat \<Rightarrow>
     error + (val list \<times> operation list \<times> nat)" where
  "patchOperands deps [] duplicatedOperations base increment_value fresh = Inr ([], [], fresh)"
| "patchOperands [] (operand # rest) duplicatedOperations base increment_value fresh =
     Inl UndefinedBehaviour"
| "patchOperands (dep # deps) (operand # rest) duplicatedOperations base increment_value fresh =
     (case patchOperand dep operand duplicatedOperations base increment_value fresh of
        Inl e \<Rightarrow> Inl e
      | Inr (v, created, fresh') \<Rightarrow>
          (case patchOperands deps rest duplicatedOperations base increment_value fresh' of
             Inl e \<Rightarrow> Inl e
           | Inr (vs, created', fresh'') \<Rightarrow> Inr (v # vs, created @ created', fresh'')))"

text \<open>
  One clone: the operations inserted for it (the constants and sums, in the order of the
  operands) and the clone itself, which is inserted last.
\<close>

definition cloneOp ::
  "operation \<Rightarrow> int list \<Rightarrow> opid list \<Rightarrow> val \<Rightarrow> int \<Rightarrow> nat \<Rightarrow>
     error + ((operation list \<times> operation) \<times> nat)" where
  "cloneOp op deps duplicatedOperations base increment_value fresh =
     (case patchOperands deps (operands op) duplicatedOperations base increment_value (Suc fresh) of
        Inl e \<Rightarrow> Inl e
      | Inr (vs, created, fresh') \<Rightarrow>
          Inr ((created, Operation fresh (opName op) vs (body op)), fresh'))"

text \<open>
  One duplication of the body: the inner loop \<^verbatim>\<open>for (auto op : operations)\<close>;
  \<open>duplicated\<close> holds what was inserted for the operations before.
\<close>

fun duplicateOps ::
  "operation list \<Rightarrow> int list list \<Rightarrow> (operation list \<times> operation) list \<Rightarrow> val \<Rightarrow> int \<Rightarrow> nat \<Rightarrow>
     error + ((operation list \<times> operation) list \<times> nat)" where
  "duplicateOps [] dependencies duplicated base increment_value fresh = Inr (duplicated, fresh)"
| "duplicateOps (op # rest) [] duplicated base increment_value fresh = Inl UndefinedBehaviour"
| "duplicateOps (op # rest) (deps # dependencies) duplicated base increment_value fresh =
     (case cloneOp op deps (map (opId \<circ> snd) duplicated) base increment_value fresh of
        Inl e \<Rightarrow> Inl e
      | Inr (g, fresh') \<Rightarrow>
          duplicateOps rest dependencies (duplicated @ [g]) base increment_value fresh')"

text \<open>
  The outer loop, at duplication \<open>i\<close> with \<open>n\<close> duplications left. The increment is
  \<open>(i + 1) * step\<close> inside the loop and \<open>i * step\<close> after it. The result lists, for every
  duplication, what was inserted for every operation.
\<close>

fun duplicateBlock_from ::
  "nat \<Rightarrow> nat \<Rightarrow> operation list \<Rightarrow> int list list \<Rightarrow> val \<Rightarrow> int \<Rightarrow> bool \<Rightarrow> nat \<Rightarrow>
     error + ((operation list \<times> operation) list list \<times> nat)" where
  "duplicateBlock_from i 0 operations dependencies base step inLoop fresh = Inr ([], fresh)"
| "duplicateBlock_from i (Suc n) operations dependencies base step inLoop fresh =
     (let increment_value = (if inLoop then (int i + 1) * step else int i * step) in
      case duplicateOps operations dependencies [] base increment_value fresh of
        Inl e \<Rightarrow> Inl e
      | Inr (copy, fresh') \<Rightarrow>
          (case duplicateBlock_from (Suc i) n operations dependencies base step inLoop fresh' of
             Inl e \<Rightarrow> Inl e
           | Inr (copies, fresh'') \<Rightarrow> Inr (copy # copies, fresh'')))"

definition duplicateBlock ::
  "int \<Rightarrow> operation list \<Rightarrow> int list list \<Rightarrow> val \<Rightarrow> int \<Rightarrow> bool \<Rightarrow> nat \<Rightarrow>
     error + ((operation list \<times> operation) list list \<times> nat)" where
  "duplicateBlock numDuplications operations dependencies base step inLoop fresh =
     duplicateBlock_from 0 (nat numDuplications) operations dependencies base step inLoop fresh"

text \<open>The operations of the duplications as they stand in the block.\<close>

definition inserted :: "(operation list \<times> operation) list list \<Rightarrow> operation list" where
  "inserted copies = concat (map (\<lambda>copy. concat (map (\<lambda>(created, clone). created @ [clone]) copy)) copies)"

text \<open>
  The first loop of the walk in \<^verbatim>\<open>unrollForLoops\<close>, over the acquire operations of the
  body: the child of a split queue is substituted in the operation, and the depth of the
  queue it then names is entered in \<open>objFifoSizes\<close>.
\<close>

definition substituteAcquire :: "PassState \<Rightarrow> tile \<Rightarrow> operation \<Rightarrow> operation" where
  "substituteAcquire st tile op =
     (if isAcquire op
      then (case checkSplitFifo st op tile of Inr op' \<Rightarrow> op' | Inl e \<Rightarrow> op)
      else op)"

fun collectSizes :: "PassState \<Rightarrow> operation list \<Rightarrow> int list \<Rightarrow> error + int list" where
  "collectSizes st [] objFifoSizes = Inr objFifoSizes"
| "collectSizes st (acqOp # rest) objFifoSizes =
     (case fifoOf acqOp of
        None \<Rightarrow> Inl UndefinedBehaviour
      | Some op \<Rightarrow> collectSizes st rest (insort_insert (size_fifo (fifoOps st op)) objFifoSizes))"

text \<open>
  The body of the walk over the loops of a core on \<open>tile\<close>, for one loop. \<open>constOf\<close> reads
  the value of the constant that defines a bound (null when the bound is not a constant).
  The operands of the loop are its lower bound, upper bound and step, then the rest. The
  result lists the operations that stand in the place of the loop afterwards: the new
  constants before the loop, the loop, the duplications after it; a fully unrolled loop is
  erased.
\<close>

definition loopBounds ::
  "(val \<Rightarrow> int option) \<Rightarrow> operation \<Rightarrow> error + (val \<times> val \<times> val list \<times> int \<times> int \<times> int)" where
  "loopBounds constOf forLoop =
     (case operands forLoop of
        lowerBound # upperBound # stepV # others \<Rightarrow>
          (case (constOf upperBound, constOf lowerBound, constOf stepV) of
             (Some old_upper_value, Some old_lower_value, Some old_step_value) \<Rightarrow>
               Inr (lowerBound, upperBound, others, old_upper_value, old_lower_value, old_step_value)
           | _ \<Rightarrow> Inl UndefinedBehaviour)
      | _ \<Rightarrow> Inl UndefinedBehaviour)"

text \<open>The branch \<^verbatim>\<open>num_iter <= unrollFactor\<close>: the body is duplicated after the loop, which is erased.\<close>

definition fullUnroll ::
  "int \<Rightarrow> operation list \<Rightarrow> int list list \<Rightarrow> val \<Rightarrow> int \<Rightarrow> nat \<Rightarrow> error + (operation list \<times> nat)" where
  "fullUnroll num_iter operations dependencies lowerBound old_step_value fresh =
     (case duplicateBlock num_iter operations dependencies lowerBound old_step_value False fresh of
        Inl e \<Rightarrow> Inl e
      | Inr (copies, fresh') \<Rightarrow> Inr (inserted copies, fresh'))"

text \<open>
  The other branch: the new step and, when the remainder is positive, the new upper bound
  are created as constants before the loop and set on it; \<open>unrollFactor - 1\<close> duplications
  are inserted before the terminator of the body, from the induction variable; \<open>remainder\<close>
  duplications are inserted after the loop, from the upper bound the loop then has.
\<close>

definition partialUnroll ::
  "opid \<Rightarrow> val \<Rightarrow> val \<Rightarrow> val list \<Rightarrow> operation \<Rightarrow> operation list \<Rightarrow> int list list \<Rightarrow> int \<Rightarrow>
     int \<Rightarrow> int \<Rightarrow> int \<Rightarrow> nat \<Rightarrow> error + (operation list \<times> nat)" where
  "partialUnroll forLoop lowerBound upperBound others terminator operations dependencies unrollFactor
       old_upper_value old_lower_value old_step_value fresh =
     (let num_unrolls = unrollFactor - 1;
          new_step_value = unrollFactor * old_step_value
      in if new_step_value = 0 then Inl UndefinedBehaviour
         else
           (let remainder = cdiv (crem (old_upper_value - old_lower_value) new_step_value) old_step_value;
                new_upper_bound =
                  cdiv (old_upper_value - old_lower_value) new_step_value * new_step_value;
                uBound = (if remainder > 0 then [Operation fresh (ConstantOp new_upper_bound) [] []] else []);
                upperBound' = (if remainder > 0 then OpResult fresh 0 else upperBound);
                fresh1 = (if remainder > 0 then Suc fresh else fresh);
                new_step = Operation fresh1 (ConstantOp new_step_value) [] []
            in case duplicateBlock num_unrolls operations dependencies (BlockArg forLoop 0)
                      old_step_value True (Suc fresh1) of
                 Inl e \<Rightarrow> Inl e
               | Inr (inLoopCopies, fresh2) \<Rightarrow>
                   (case duplicateBlock remainder operations dependencies upperBound'
                           old_step_value False fresh2 of
                      Inl e \<Rightarrow> Inl e
                    | Inr (afterCopies, fresh3) \<Rightarrow>
                        Inr (uBound @ [new_step] @
                             [Operation forLoop ForOp
                                (lowerBound # upperBound' # OpResult fresh1 0 # others)
                                (operations @ inserted inLoopCopies @ [terminator])] @
                             inserted afterCopies, fresh3))))"

definition unrollForLoop ::
  "PassState \<Rightarrow> tile \<Rightarrow> (val \<Rightarrow> int option) \<Rightarrow> operation \<Rightarrow> nat \<Rightarrow> error + (operation list \<times> nat)" where
  "unrollForLoop st tile constOf forLoop fresh =
     (let body1 = map (substituteAcquire st tile) (body forLoop);
          found = (filter isAcquire body1 \<noteq> [])
      in case collectSizes st (filter isAcquire body1) [] of
           Inl e \<Rightarrow> Inl e
         | Inr objFifoSizes \<Rightarrow>
             (let unrollFactor = computeLCM objFifoSizes in
              if \<not> found then Inr ([forLoop], fresh)
              else
                (case loopBounds constOf forLoop of
                   Inl e \<Rightarrow> Inl e
                 | Inr (lowerBound, upperBound, others,
                        old_upper_value, old_lower_value, old_step_value) \<Rightarrow>
                     if old_step_value = 0 then Inl UndefinedBehaviour
                     else
                       (let num_iter = cdiv (old_upper_value - old_lower_value) old_step_value;
                            operations = butlast body1
                        in case identifyDependencies (opId forLoop) (map opId body1)
                                  operations 0 Map.empty [] of
                             Inl e \<Rightarrow> Inl e
                           | Inr dependencies \<Rightarrow>
                               if num_iter \<le> unrollFactor
                               then fullUnroll num_iter operations dependencies lowerBound
                                      old_step_value fresh
                               else partialUnroll (opId forLoop) lowerBound upperBound others
                                      (last body1) operations dependencies unrollFactor
                                      old_upper_value old_lower_value old_step_value fresh))))"

section \<open>What a duplication of a loop body is\<close>

text \<open>
  The operand \<open>new\<close> of a clone stands for the operand \<open>old\<close> of the original with dependency
  \<open>dep\<close>: for a dependency on the operation at index \<open>dep\<close> of the body it is result 0 of the
  clone at that index in the same duplication; for a dependency on the induction variable
  it is the result of a sum of \<open>base\<close> and a constant \<open>increment\<close>, both among the operations
  \<open>created\<close> for the clone; otherwise it is the operand of the original.
\<close>

definition patched :: "operation list \<Rightarrow> val \<Rightarrow> int \<Rightarrow> opid list \<Rightarrow> int \<Rightarrow> val \<Rightarrow> val \<Rightarrow> bool" where
  "patched created base increment clones dep old new =
     (if dep \<ge> 0 then nat dep < length clones \<and> new = OpResult (clones ! nat dep) 0
      else if dep = LOOP_VAR_DEPENDENCY then
        (\<exists>c\<in>set created. \<exists>a\<in>set created.
            c = Operation (opId c) (ConstantOp increment) [] [] \<and>
            a = Operation (opId a) AddIOp [base, OpResult (opId c) 0] [] \<and>
            new = OpResult (opId a) 0)
      else new = old)"

text \<open>
  \<open>copy\<close> is one duplication of \<open>operations\<close>: one clone per operation, in order, with the
  name, the nested operations and the number of operands of the original, and every
  operand patched according to its dependency.
\<close>

definition isCopyOf ::
  "operation list \<Rightarrow> int list list \<Rightarrow> val \<Rightarrow> int \<Rightarrow> (operation list \<times> operation) list \<Rightarrow> bool" where
  "isCopyOf operations dependencies base increment copy =
     (length copy = length operations \<and>
      (\<forall>j<length operations.
          opName (snd (copy ! j)) = opName (operations ! j) \<and>
          body (snd (copy ! j)) = body (operations ! j) \<and>
          length (operands (snd (copy ! j))) = length (operands (operations ! j)) \<and>
          (\<forall>k<length (operands (operations ! j)).
              patched (fst (copy ! j)) base increment (map (opId \<circ> snd) (take j copy))
                (dependencies ! j ! k) (operands (operations ! j) ! k)
                (operands (snd (copy ! j)) ! k))))"

text \<open>
  The dependency that \<^verbatim>\<open>identifyDependencies\<close> records for the operand \<open>v\<close> of the
  operation at index \<open>j\<close>, when every operation of the body is defined before it is used.
\<close>

definition dependsOn :: "opid \<Rightarrow> opid list \<Rightarrow> operation list \<Rightarrow> nat \<Rightarrow> val \<Rightarrow> int \<Rightarrow> bool" where
  "dependsOn forLoop bodyIds operations j v dep =
     (if v = BlockArg forLoop 0 then dep = LOOP_VAR_DEPENDENCY
      else
        (case getDefiningOp v of
           None \<Rightarrow> False
         | Some d \<Rightarrow>
             if d \<in> set bodyIds
             then (\<exists>i<j. opId (operations ! i) = d \<and> dep = int i)
             else dep = - 1))"

text \<open>
  The body of a loop in SSA form: its operations have different identities, and every
  operand of an operation is the induction variable of the loop or is defined by an
  operation, which, when it is an operation of the body, stands before the one using it.
\<close>

definition definedBeforeUse :: "opid \<Rightarrow> opid list \<Rightarrow> operation list \<Rightarrow> bool" where
  "definedBeforeUse forLoop bodyIds operations =
     (distinct (map opId operations) \<and>
      (\<forall>j<length operations. \<forall>v\<in>set (operands (operations ! j)).
          v = BlockArg forLoop 0 \<or>
          (case getDefiningOp v of
             None \<Rightarrow> False
           | Some d \<Rightarrow> d \<in> set bodyIds \<longrightarrow> d \<in> set (map opId (take j operations)))))"

text \<open>A shared queue 0 of depth 3 from tile 5 to tile 6, with its elements.\<close>

definition depth3State :: PassState where
  "depth3State =
     \<lparr>lockAnalysis = (\<lambda>(t, i). if t = 5 \<and> 0 \<le> i \<and> i < 3 then 1 else 0),
      buffersPerFifo = (\<lambda>f. if f = 0 then [\<lparr>buf_type = [16], buf_tile = 5, buf_index = 0\<rparr>,
                                          \<lparr>buf_type = [16], buf_tile = 5, buf_index = 1\<rparr>,
                                          \<lparr>buf_type = [16], buf_tile = 5, buf_index = 2\<rparr>]
                           else []),
      locksPerFifo = (\<lambda>f. if f = 0 then [\<lparr>lock_tile = 5, lock_lockID = 0\<rparr>, \<lparr>lock_tile = 5, lock_lockID = 1\<rparr>,
                                        \<lparr>lock_tile = 5, lock_lockID = 2\<rparr>]
                         else []),
      splitFifos = Map.empty,
      buff_index = 3,
      fifoOps = (\<lambda>_. \<lparr>producerTile = 5, consumerTiles = [6], elemNumber = 3, elemType = [16]\<rparr>),
      nextHandle = 1,
      objectFifoTiles = {5, 6}\<rparr>"

text \<open>
  A loop (operation 30) whose bounds and step are the results of the operations 20, 21 and
  22. Its body acquires an element of queue 0, uses it together with the induction
  variable, and releases it.
\<close>

definition exampleLoop :: operation where
  "exampleLoop =
     Operation 30 ForOp [OpResult 20 0, OpResult 21 0, OpResult 22 0]
       [Operation 31 (ObjectFifoAcquireOp Produce 1) [OpResult 0 0] [],
        Operation 32 (OtherOp ''use'') [OpResult 31 0, BlockArg 30 0] [],
        Operation 33 (ObjectFifoReleaseOp Produce 1) [OpResult 0 0] [],
        Operation 34 (OtherOp ''scf.yield'') [] []]"

text \<open>The constants behind the operations 20, 21 and 22: lower bound, upper bound, step.\<close>

definition exampleConsts :: "int \<Rightarrow> int \<Rightarrow> int \<Rightarrow> val \<Rightarrow> int option" where
  "exampleConsts lb ub step v =
     (if v = OpResult 20 0 then Some lb else if v = OpResult 21 0 then Some ub
      else if v = OpResult 22 0 then Some step else None)"

text \<open>
  Queue 0 from tile 5 to the non-adjacent tile 7, split: its child is queue 1, declared on
  tile 7; both have depth 2.
\<close>

definition splitState :: PassState where
  "splitState =
     \<lparr>lockAnalysis = (\<lambda>(t, i). if (t = 5 \<or> t = 7) \<and> 0 \<le> i \<and> i < 2 then 1 else 0),
      buffersPerFifo = (\<lambda>f. if f = 0 then [\<lparr>buf_type = [16], buf_tile = 5, buf_index = 0\<rparr>,
                                          \<lparr>buf_type = [16], buf_tile = 5, buf_index = 1\<rparr>]
                           else if f = 1 then [\<lparr>buf_type = [16], buf_tile = 7, buf_index = 2\<rparr>,
                                               \<lparr>buf_type = [16], buf_tile = 7, buf_index = 3\<rparr>]
                           else []),
      locksPerFifo = (\<lambda>f. if f = 0 then [\<lparr>lock_tile = 5, lock_lockID = 0\<rparr>, \<lparr>lock_tile = 5, lock_lockID = 1\<rparr>]
                         else if f = 1 then [\<lparr>lock_tile = 7, lock_lockID = 0\<rparr>, \<lparr>lock_tile = 7, lock_lockID = 1\<rparr>]
                         else []),
      splitFifos = [0 \<mapsto> [1]],
      buff_index = 4,
      fifoOps = (\<lambda>f. if f = 1
                     then \<lparr>producerTile = 7, consumerTiles = [7], elemNumber = 2, elemType = [16]\<rparr>
                     else \<lparr>producerTile = 5, consumerTiles = [7], elemNumber = 2, elemType = [16]\<rparr>),
      nextHandle = 2,
      objectFifoTiles = {5, 7}\<rparr>"

text \<open>The same loop in a kernel on tile 7, which acquires and releases as a consumer.\<close>

definition consumerLoop :: operation where
  "consumerLoop =
     Operation 30 ForOp [OpResult 20 0, OpResult 21 0, OpResult 22 0]
       [Operation 31 (ObjectFifoAcquireOp Consume 1) [OpResult 0 0] [],
        Operation 32 (OtherOp ''use'') [OpResult 31 0, BlockArg 30 0] [],
        Operation 33 (ObjectFifoReleaseOp Consume 1) [OpResult 0 0] [],
        Operation 34 (OtherOp ''scf.yield'') [] []]"


section \<open>Lock analysis: properties\<close>

lemma getLockID_loop_free:
  assumes "i < 16" "m (t, int i) = 0" "k \<le> i" "\<forall>j. k \<le> j \<and> j < i \<longrightarrow> m (t, int j) \<noteq> 0"
  shows "getLockID_loop k m t = (int i, m((t, int i) := 1))"
  using assms
proof (induction "i - k" arbitrary: k)
  case 0
  then have "k = i" by simp
  with 0 show ?case by (subst getLockID_loop.simps) simp
next
  case (Suc d)
  then have lt: "k < i" and nz: "m (t, int k) \<noteq> 0" by auto
  have "getLockID_loop (Suc k) m t = (int i, m((t, int i) := 1))"
    using Suc by (intro Suc.hyps(1)) auto
  with lt nz Suc.prems(1) show ?case
    by (subst getLockID_loop.simps) simp
qed

lemma getLockID_loop_full:
  assumes "\<forall>j. k \<le> j \<and> j < 16 \<longrightarrow> m (t, int j) \<noteq> 0"
  shows "getLockID_loop k m t = (- 1, m)"
  using assms
proof (induction "16 - k" arbitrary: k)
  case 0
  then show ?case by (subst getLockID_loop.simps) simp
next
  case (Suc d)
  then have "k < 16" "m (t, int k) \<noteq> 0" by auto
  moreover have "getLockID_loop (Suc k) m t = (- 1, m)"
    using Suc by (intro Suc.hyps(1)) auto
  ultimately show ?case by (subst getLockID_loop.simps) simp
qed

text \<open>
  C4. For any tile the allocator returns the smallest index in 0..15 whose usage count
  is 0 and marks it used. When the indices 0 to 14 are in use and 15 is free, the request
  succeeds with index 15 (the sixteenth lock); the request after it finds all sixteen in
  use, \<^verbatim>\<open>getLockID\<close> returns -1 and the allocation site fails with "No more locks to
  allocate!".
\<close>

theorem getLockID_first_fit:
  "(\<forall>i<16. m (t, int i) = 0 \<and> (\<forall>j<i. m (t, int j) \<noteq> 0) \<longrightarrow>
       getLockID m t = (int i, m((t, int i) := 1)) \<and>
       allocateLock m t = Inr (\<lparr>lock_tile = t, lock_lockID = int i\<rparr>, m((t, int i) := 1)))
   \<and> ((\<forall>j<15. m (t, int j) \<noteq> 0) \<and> m (t, 15) = 0 \<longrightarrow>
       (\<exists>m'. allocateLock m t = Inr (\<lparr>lock_tile = t, lock_lockID = 15\<rparr>, m') \<and>
             getLockID m' t = (- 1, m') \<and> allocateLock m' t = Inl NoMoreLocks))
   \<and> ((\<forall>j<16. m (t, int j) \<noteq> 0) \<longrightarrow>
       getLockID m t = (- 1, m) \<and> allocateLock m t = Inl NoMoreLocks)"
proof (intro conjI allI impI)
  fix i assume i: "i < 16" and h: "m (t, int i) = 0 \<and> (\<forall>j<i. m (t, int j) \<noteq> 0)"
  then show g: "getLockID m t = (int i, m((t, int i) := 1))"
    unfolding getLockID_def by (intro getLockID_loop_free) auto
  then show "allocateLock m t = Inr (\<lparr>lock_tile = t, lock_lockID = int i\<rparr>, m((t, int i) := 1))"
    by (simp add: allocateLock_def)
next
  assume h: "(\<forall>j<15. m (t, int j) \<noteq> 0) \<and> m (t, 15) = 0"
  let ?m' = "m((t, 15) := 1)"
  have g: "getLockID m t = (int 15, m((t, int 15) := 1))"
    unfolding getLockID_def using h by (intro getLockID_loop_free) auto
  have full: "\<forall>j. 0 \<le> j \<and> j < 16 \<longrightarrow> ?m' (t, int j) \<noteq> 0"
  proof (intro allI impI)
    fix j :: nat assume "0 \<le> j \<and> j < 16"
    then have "j < 15 \<or> j = 15" by arith
    then show "?m' (t, int j) \<noteq> 0" using h by auto
  qed
  have g': "getLockID ?m' t = (- 1, ?m')"
    unfolding getLockID_def by (rule getLockID_loop_full [OF full])
  show "\<exists>m'. allocateLock m t = Inr (\<lparr>lock_tile = t, lock_lockID = 15\<rparr>, m') \<and>
             getLockID m' t = (- 1, m') \<and> allocateLock m' t = Inl NoMoreLocks"
    using g g' by (intro exI [of _ ?m']) (simp add: allocateLock_def)
next
  assume h: "\<forall>j<16. m (t, int j) \<noteq> 0"
  then show g: "getLockID m t = (- 1, m)"
    unfolding getLockID_def by (intro getLockID_loop_full) auto
  then show "allocateLock m t = Inl NoMoreLocks"
    by (simp add: allocateLock_def)
qed

theorem getLockID_first_fit_witness:
  "getLockID (\<lambda>_. 0) 7 = (0, (\<lambda>_. 0)((7, 0) := 1))
   \<and> (\<exists>m'. allocateLock (\<lambda>(t, i). if 0 \<le> i \<and> i < 15 then 1 else 0) 7
                = Inr (\<lparr>lock_tile = 7, lock_lockID = 15\<rparr>, m')
            \<and> getLockID m' 7 = (- 1, m') \<and> allocateLock m' 7 = Inl NoMoreLocks)
   \<and> allocateLock (\<lambda>_. 1) 7 = Inl NoMoreLocks"
proof -
  let ?m = "\<lambda>(t :: tile, i :: int). if 0 \<le> i \<and> i < 15 then 1 else (0 :: int)"
  have a: "getLockID (\<lambda>_. 0) 7 = (0, (\<lambda>_. 0)((7, 0) := 1))"
    using getLockID_first_fit [of "\<lambda>_. 0" 7] by force
  have b: "\<exists>m'. allocateLock ?m 7 = Inr (\<lparr>lock_tile = 7, lock_lockID = 15\<rparr>, m')
            \<and> getLockID m' 7 = (- 1, m') \<and> allocateLock m' 7 = Inl NoMoreLocks"
    using getLockID_first_fit [of ?m 7] by simp
  have c: "allocateLock (\<lambda>_. 1) 7 = Inl NoMoreLocks"
    using getLockID_first_fit [of "\<lambda>_. 1" 7] by simp
  from a b c show ?thesis by blast
qed

lemma LockAnalysis_foldl:
  "foldl (\<lambda>m l. m((lock_tile l, lock_lockID l) := 1)) m0 ls k =
     (if k \<in> (\<lambda>l. (lock_tile l, lock_lockID l)) ` set ls then 1 else m0 k)"
  by (induction ls arbitrary: m0) auto

lemma LockAnalysis_marks:
  "l \<in> set lockOps \<Longrightarrow> LockAnalysis lockOps (lock_tile l, lock_lockID l) = 1"
  by (simp add: LockAnalysis_def LockAnalysis_foldl)

lemma getLockID_loop_result:
  "getLockID_loop k m t = (i, m') \<Longrightarrow>
     (i = - 1 \<and> m' = m) \<or> (0 \<le> i \<and> i < 16 \<and> m (t, i) = 0 \<and> m' = m((t, i) := 1))"
proof (induction k m t rule: getLockID_loop.induct)
  case (1 k m t)
  show ?case
  proof (cases "k < 16 \<and> m (t, int k) \<noteq> 0")
    case True
    with "1.prems" have "getLockID_loop (Suc k) m t = (i, m')"
      by (subst (asm) getLockID_loop.simps) simp
    with True "1.IH" show ?thesis by simp
  next
    case False
    with "1.prems" show ?thesis
      by (subst (asm) getLockID_loop.simps) (auto split: if_splits)
  qed
qed

lemma getLockID_keeps_marks:
  "getLockID m t = (i, m') \<Longrightarrow> m k \<noteq> 0 \<Longrightarrow> m' k \<noteq> 0"
  unfolding getLockID_def by (drule getLockID_loop_result) (auto split: if_splits)

lemma reachableLocks_marks:
  "reachableLocks lockOps la \<Longrightarrow> l \<in> set lockOps \<Longrightarrow> la (lock_tile l, lock_lockID l) \<noteq> 0"
proof (induction rule: reachableLocks.induct)
  case constructed
  then show ?case by (simp add: LockAnalysis_marks)
next
  case (requested la t i la')
  then show ?case by (auto dest: getLockID_keeps_marks)
qed

text \<open>
  C10. The constructor of the lock analysis marks the index of every lock operation of
  the input module on its tile, before any request is served; the marks stay in every
  state the allocator reaches; and a lock that the allocation site creates in such a
  state is none of the lock operations of the input module.
\<close>

theorem allocateLock_avoids_existing_locks:
  assumes "reachableLocks lockOps la"
  shows "(\<forall>l\<in>set lockOps. LockAnalysis lockOps (lock_tile l, lock_lockID l) = 1)
       \<and> (\<forall>l\<in>set lockOps. la (lock_tile l, lock_lockID l) \<noteq> 0)
       \<and> (\<forall>t lock la'. allocateLock la t = Inr (lock, la') \<longrightarrow>
             lock_tile lock = t \<and> lock \<notin> set lockOps \<and> reachableLocks lockOps la')"
proof (intro conjI ballI allI impI)
  fix l assume "l \<in> set lockOps"
  then show "LockAnalysis lockOps (lock_tile l, lock_lockID l) = 1"
    by (rule LockAnalysis_marks)
  from assms \<open>l \<in> set lockOps\<close> show "la (lock_tile l, lock_lockID l) \<noteq> 0"
    by (rule reachableLocks_marks)
next
  fix t lock la' assume a: "allocateLock la t = Inr (lock, la')"
  obtain i m' where g: "getLockID la t = (i, m')" by (cases "getLockID la t")
  with a have i: "0 \<le> i" and lock: "lock = \<lparr>lock_tile = t, lock_lockID = i\<rparr>" and m': "m' = la'"
    by (auto simp: allocateLock_def split: if_splits)
  from lock show "lock_tile lock = t" by simp
  from g have "(i = - 1 \<and> m' = la) \<or> (0 \<le> i \<and> i < 16 \<and> la (t, i) = 0 \<and> m' = la((t, i) := 1))"
    unfolding getLockID_def by (rule getLockID_loop_result)
  with i have free: "la (t, i) = 0" by auto
  show "lock \<notin> set lockOps"
  proof
    assume "lock \<in> set lockOps"
    with assms have "la (lock_tile lock, lock_lockID lock) \<noteq> 0" by (rule reachableLocks_marks)
    with free lock show False by simp
  qed
  from assms g m' show "reachableLocks lockOps la'"
    by (auto intro: reachableLocks.requested)
qed

theorem allocateLock_avoids_existing_locks_witness:
  "reachableLocks [\<lparr>lock_tile = 2, lock_lockID = 0\<rparr>, \<lparr>lock_tile = 2, lock_lockID = 1\<rparr>]
     (LockAnalysis [\<lparr>lock_tile = 2, lock_lockID = 0\<rparr>, \<lparr>lock_tile = 2, lock_lockID = 1\<rparr>])
   \<and> (\<exists>la'. allocateLock
         (LockAnalysis [\<lparr>lock_tile = 2, lock_lockID = 0\<rparr>, \<lparr>lock_tile = 2, lock_lockID = 1\<rparr>]) 2
         = Inr (\<lparr>lock_tile = 2, lock_lockID = 2\<rparr>, la'))
   \<and> \<lparr>lock_tile = 2, lock_lockID = 2\<rparr> \<notin>
       set [\<lparr>lock_tile = 2 :: tile, lock_lockID = 0 :: int\<rparr>, \<lparr>lock_tile = 2, lock_lockID = 1\<rparr>]"
proof -
  let ?L = "[\<lparr>lock_tile = 2 :: tile, lock_lockID = 0 :: int\<rparr>, \<lparr>lock_tile = 2, lock_lockID = 1\<rparr>]"
  have r: "reachableLocks ?L (LockAnalysis ?L)" by (rule reachableLocks.constructed)
  have a: "\<exists>la'. allocateLock (LockAnalysis ?L) 2 = Inr (\<lparr>lock_tile = 2, lock_lockID = 2\<rparr>, la')"
    by (simp add: allocateLock_def getLockID_def getLockID_loop.simps LockAnalysis_def)
  then obtain la' where "allocateLock (LockAnalysis ?L) 2 = Inr (\<lparr>lock_tile = 2, lock_lockID = 2\<rparr>, la')" ..
  with allocateLock_avoids_existing_locks [OF r]
  have "\<lparr>lock_tile = 2, lock_lockID = 2\<rparr> \<notin> set ?L" by blast
  with r a show ?thesis by blast
qed

section \<open>Sizing and splitting: properties\<close>


lemma foldl_max_append: "foldl max (foldl max m xs) ys = foldl max m (xs @ ys)"
  by simp







lemma findObjectFifoSize_cong:
  "fs f = fs' f \<Longrightarrow> findObjectFifoSize cores fs t f = findObjectFifoSize cores fs' t f"
  by (simp add: findObjectFifoSize_def Let_def)

lemma splitConsumers_split:
  assumes "f < nextHandle st"
    and "\<forall>c\<in>set cs. \<not> (length (consumerTiles (fifoOps st f)) = 1 \<and>
                        adj (producerTile (fifoOps st f)) c)"
  shows "\<exists>st'. splitConsumers adj cores f cs st acc =
            (False, acc @ [nextHandle st ..< nextHandle st + length cs], st')
     \<and> nextHandle st' = nextHandle st + length cs
     \<and> (\<forall>h<nextHandle st. fifoOps st' h = fifoOps st h)
     \<and> (\<forall>i<length cs. fifoOps st' (nextHandle st + i) =
           \<lparr>producerTile = cs ! i, consumerTiles = [cs ! i],
            elemNumber = findObjectFifoSize cores (fifoOps st) (cs ! i) f,
            elemType = elemType (fifoOps st f)\<rparr>)
     \<and> lockAnalysis st' = lockAnalysis st \<and> buff_index st' = buff_index st
     \<and> buffersPerFifo st' = buffersPerFifo st \<and> locksPerFifo st' = locksPerFifo st
     \<and> splitFifos st' = splitFifos st
     \<and> objectFifoTiles st' = objectFifoTiles st \<union> set cs"
  using assms
proof (induction cs arbitrary: st acc)
  case Nil
  then show ?case by simp
next
  case (Cons c cs)
  let ?n = "nextHandle st"
  let ?child = "\<lparr>producerTile = c, consumerTiles = [c],
            elemNumber = findObjectFifoSize cores (fifoOps st) c f,
            elemType = elemType (fifoOps st f)\<rparr>"
  let ?st2 = "st\<lparr>objectFifoTiles := insert c (objectFifoTiles st),
                  fifoOps := (fifoOps st)(?n := ?child), nextHandle := Suc ?n\<rparr>"
  from Cons.prems have ne: "f \<noteq> ?n" by simp
  have step: "splitConsumers adj cores f (c # cs) st acc =
               splitConsumers adj cores f cs ?st2 (acc @ [?n])"
    using Cons.prems(2) by (auto simp: Let_def)
  have pre1: "f < nextHandle ?st2" using Cons.prems(1) by simp
  have same: "fifoOps ?st2 f = fifoOps st f" using ne by simp
  have pre2: "\<forall>c\<in>set cs. \<not> (length (consumerTiles (fifoOps ?st2 f)) = 1 \<and>
                        adj (producerTile (fifoOps ?st2 f)) c)"
    using Cons.prems(2) unfolding same by simp
  from Cons.IH [OF pre1 pre2, of "acc @ [?n]"]
  obtain st' where r0: "splitConsumers adj cores f cs ?st2 (acc @ [?n]) =
            (False, (acc @ [?n]) @ [nextHandle ?st2 ..< nextHandle ?st2 + length cs], st')"
     and nh0: "nextHandle st' = nextHandle ?st2 + length cs"
     and old0: "\<forall>h<nextHandle ?st2. fifoOps st' h = fifoOps ?st2 h"
     and new0: "\<forall>i<length cs. fifoOps st' (nextHandle ?st2 + i) =
           \<lparr>producerTile = cs ! i, consumerTiles = [cs ! i],
            elemNumber = findObjectFifoSize cores (fifoOps ?st2) (cs ! i) f,
            elemType = elemType (fifoOps ?st2 f)\<rparr>"
     and rest0: "lockAnalysis st' = lockAnalysis ?st2" "buff_index st' = buff_index ?st2"
       "buffersPerFifo st' = buffersPerFifo ?st2" "locksPerFifo st' = locksPerFifo ?st2"
       "splitFifos st' = splitFifos ?st2"
       "objectFifoTiles st' = objectFifoTiles ?st2 \<union> set cs"
    by blast
  have r: "splitConsumers adj cores f cs ?st2 (acc @ [?n]) =
            (False, (acc @ [?n]) @ [Suc ?n ..< Suc ?n + length cs], st')"
    using r0 by simp
  have nh: "nextHandle st' = Suc ?n + length cs" using nh0 by simp
  have old: "\<forall>h<Suc ?n. fifoOps st' h = fifoOps ?st2 h" using old0 by simp
  have new: "\<forall>i<length cs. fifoOps st' (Suc ?n + i) =
           \<lparr>producerTile = cs ! i, consumerTiles = [cs ! i],
            elemNumber = findObjectFifoSize cores (fifoOps ?st2) (cs ! i) f,
            elemType = elemType (fifoOps ?st2 f)\<rparr>"
    using new0 by simp
  have rest: "lockAnalysis st' = lockAnalysis st" "buff_index st' = buff_index st"
       "buffersPerFifo st' = buffersPerFifo st" "locksPerFifo st' = locksPerFifo st"
       "splitFifos st' = splitFifos st"
       "objectFifoTiles st' = insert c (objectFifoTiles st) \<union> set cs"
    using rest0 by simp_all
  have l: "(acc @ [?n]) @ [Suc ?n ..< Suc ?n + length cs] = acc @ [?n ..< ?n + length (c # cs)]"
    by (simp add: upt_conv_Cons del: upt_Suc)
  have fo: "\<And>t. findObjectFifoSize cores (fifoOps ?st2) t f = findObjectFifoSize cores (fifoOps st) t f"
    by (rule findObjectFifoSize_cong) (rule same)
  have new': "\<forall>i<length (c # cs). fifoOps st' (?n + i) =
           \<lparr>producerTile = (c # cs) ! i, consumerTiles = [(c # cs) ! i],
            elemNumber = findObjectFifoSize cores (fifoOps st) ((c # cs) ! i) f,
            elemType = elemType (fifoOps st f)\<rparr>"
  proof (intro allI impI)
    fix i assume i: "i < length (c # cs)"
    show "fifoOps st' (?n + i) =
           \<lparr>producerTile = (c # cs) ! i, consumerTiles = [(c # cs) ! i],
            elemNumber = findObjectFifoSize cores (fifoOps st) ((c # cs) ! i) f,
            elemType = elemType (fifoOps st f)\<rparr>"
    proof (cases i)
      case 0
      with old have "fifoOps st' ?n = fifoOps ?st2 ?n" by simp
      with 0 show ?thesis by simp
    next
      case (Suc j)
      with i have "j < length cs" by simp
      with new have "fifoOps st' (Suc ?n + j) =
           \<lparr>producerTile = cs ! j, consumerTiles = [cs ! j],
            elemNumber = findObjectFifoSize cores (fifoOps ?st2) (cs ! j) f,
            elemType = elemType (fifoOps ?st2 f)\<rparr>" by blast
      with Suc show ?thesis unfolding fo same by simp
    qed
  qed
  have old': "\<forall>h<?n. fifoOps st' h = fifoOps st h"
    using old by simp
  show ?case
    unfolding step r l using nh old' new' rest by (intro exI [of _ st']) simp
qed

lemma createElements_length:
  "createElements n ty t la bi bufs locks = Inr (bufs', locks', la', bi') \<Longrightarrow>
     length bufs' = length bufs + n \<and> length locks' = length locks + n"
proof (induction n arbitrary: la bi bufs locks)
  case 0
  then show ?case by simp
next
  case (Suc n)
  then show ?case
    by (fastforce simp: Let_def split: sum.splits prod.splits)
qed

lemma createObjectFifoElements_fields:
  assumes "createObjectFifoElements st f = Inr st'"
  shows "fifoOps st' = fifoOps st \<and> splitFifos st' = splitFifos st
       \<and> nextHandle st' = nextHandle st \<and> objectFifoTiles st' = objectFifoTiles st
       \<and> int (length (buffersPerFifo st' f)) = max 0 (size_fifo (fifoOps st f))
       \<and> int (length (locksPerFifo st' f)) = max 0 (size_fifo (fifoOps st f))
       \<and> (\<forall>g. g \<noteq> f \<longrightarrow> buffersPerFifo st' g = buffersPerFifo st g \<and> locksPerFifo st' g = locksPerFifo st g)"
  using assms
  by (auto simp: createObjectFifoElements_def Let_def split: sum.splits prod.splits
           dest!: createElements_length)


lemma elaborateFifo_split:
  assumes h: "f < nextHandle st"
    and ns: "\<not> (length (consumerTiles (fifoOps st f)) = 1 \<and>
               adj (producerTile (fifoOps st f)) (hd (consumerTiles (fifoOps st f))))"
    and ok: "elaborateFifo adj cores st f = Inr st'"
  shows "splitFifos st' = (splitFifos st)(f \<mapsto>
           [nextHandle st ..< nextHandle st + length (consumerTiles (fifoOps st f))])"
    and "fifoOps st' f = (fifoOps st f)\<lparr>elemNumber :=
           findObjectFifoSize cores (fifoOps st) (producerTile (fifoOps st f)) f\<rparr>"
    and "\<forall>i<length (consumerTiles (fifoOps st f)). fifoOps st' (nextHandle st + i) =
           \<lparr>producerTile = consumerTiles (fifoOps st f) ! i,
            consumerTiles = [consumerTiles (fifoOps st f) ! i],
            elemNumber = findObjectFifoSize cores (fifoOps st) (consumerTiles (fifoOps st f) ! i) f,
            elemType = elemType (fifoOps st f)\<rparr>"
    and "\<forall>g<nextHandle st. g \<noteq> f \<longrightarrow> fifoOps st' g = fifoOps st g"
    and "nextHandle st' = nextHandle st + length (consumerTiles (fifoOps st f))"
proof -
  let ?cs = "consumerTiles (fifoOps st f)"
  let ?st0 = "st\<lparr>objectFifoTiles := insert (producerTile (fifoOps st f)) (objectFifoTiles st)\<rparr>"
  have pre1: "f < nextHandle ?st0" using h by simp
  have pre2: "\<forall>c\<in>set ?cs. \<not> (length (consumerTiles (fifoOps ?st0 f)) = 1 \<and>
                        adj (producerTile (fifoOps ?st0 f)) c)"
  proof
    fix c assume c: "c \<in> set ?cs"
    show "\<not> (length (consumerTiles (fifoOps ?st0 f)) = 1 \<and> adj (producerTile (fifoOps ?st0 f)) c)"
    proof
      assume a: "length (consumerTiles (fifoOps ?st0 f)) = 1 \<and> adj (producerTile (fifoOps ?st0 f)) c"
      then have "length ?cs = 1" by simp
      then obtain x where x: "?cs = [x]" by (cases ?cs) auto
      with c have "c = hd ?cs" by simp
      with a ns show False by simp
    qed
  qed
  from splitConsumers_split [where f = f and st = "?st0" and cs = "?cs" and adj = adj
         and cores = cores and acc = "[]", OF pre1 pre2]
  obtain st1 where r0: "splitConsumers adj cores f ?cs ?st0 [] =
            (False, [] @ [nextHandle ?st0 ..< nextHandle ?st0 + length ?cs], st1)"
     and nh0: "nextHandle st1 = nextHandle ?st0 + length ?cs"
     and old0: "\<forall>h<nextHandle ?st0. fifoOps st1 h = fifoOps ?st0 h"
     and new0: "\<forall>i<length ?cs. fifoOps st1 (nextHandle ?st0 + i) =
           \<lparr>producerTile = ?cs ! i, consumerTiles = [?cs ! i],
            elemNumber = findObjectFifoSize cores (fifoOps ?st0) (?cs ! i) f,
            elemType = elemType (fifoOps ?st0 f)\<rparr>"
     and sf0: "splitFifos st1 = splitFifos ?st0"
    by blast
  have r: "splitConsumers adj cores f (consumerTiles (fifoOps ?st0 f)) ?st0 [] =
            (False, [nextHandle st ..< nextHandle st + length ?cs], st1)"
    using r0 by simp
  have f1: "fifoOps st1 f = fifoOps st f" using old0 h by simp
  let ?p = "findObjectFifoSize cores (fifoOps st1) (producerTile (fifoOps st1 f)) f"
  let ?st2 = "st1\<lparr>fifoOps := (fifoOps st1)(f := (fifoOps st1 f)\<lparr>elemNumber := ?p\<rparr>)\<rparr>"
  from ok obtain st3 where c3: "createObjectFifoElements ?st2 f = Inr st3"
    and st': "st' = st3\<lparr>splitFifos := (splitFifos st3)(f \<mapsto> [nextHandle st ..< nextHandle st + length ?cs])\<rparr>"
    unfolding elaborateFifo_def Let_def r by (auto split: sum.splits)
  note flds = createObjectFifoElements_fields [OF c3]
  have p: "?p = findObjectFifoSize cores (fifoOps st) (producerTile (fifoOps st f)) f"
    unfolding f1 by (rule findObjectFifoSize_cong) (rule f1)
  show "splitFifos st' = (splitFifos st)(f \<mapsto> [nextHandle st ..< nextHandle st + length ?cs])"
    using st' flds sf0 by simp
  show "fifoOps st' f = (fifoOps st f)\<lparr>elemNumber :=
           findObjectFifoSize cores (fifoOps st) (producerTile (fifoOps st f)) f\<rparr>"
    using st' flds p f1 by simp
  show "\<forall>i<length ?cs. fifoOps st' (nextHandle st + i) =
           \<lparr>producerTile = ?cs ! i, consumerTiles = [?cs ! i],
            elemNumber = findObjectFifoSize cores (fifoOps st) (?cs ! i) f,
            elemType = elemType (fifoOps st f)\<rparr>"
    using st' flds new0 h by simp
  show "\<forall>g<nextHandle st. g \<noteq> f \<longrightarrow> fifoOps st' g = fifoOps st g"
    using st' flds old0 by simp
  show "nextHandle st' = nextHandle st + length ?cs"
    using st' flds nh0 by simp
qed

lemma elaborateFifo_shared:
  assumes sh: "length (consumerTiles (fifoOps st f)) = 1 \<and>
               adj (producerTile (fifoOps st f)) (hd (consumerTiles (fifoOps st f)))"
    and ok: "elaborateFifo adj cores st f = Inr st'"
  shows "splitFifos st' = splitFifos st \<and> fifoOps st' = fifoOps st \<and> nextHandle st' = nextHandle st"
proof -
  from sh obtain c where c: "consumerTiles (fifoOps st f) = [c]"
    by (cases "consumerTiles (fifoOps st f)") auto
  with sh have adj: "adj (producerTile (fifoOps st f)) c" by simp
  let ?st1 = "st\<lparr>objectFifoTiles := insert c (insert (producerTile (fifoOps st f)) (objectFifoTiles st))\<rparr>"
  from ok c adj have "createObjectFifoElements ?st1 f = Inr st'"
    by (simp add: elaborateFifo_def Let_def)
  from createObjectFifoElements_fields [OF this] show ?thesis by simp
qed

lemma replaceUsesOfWith_absent:
  "from \<notin> set (operands op) \<Longrightarrow> replaceUsesOfWith op from to = op"
  by (cases op) (auto simp: replaceUsesOfWith_def intro!: map_idI)

lemma replaceUsesOfWith_gone:
  "to \<noteq> from \<Longrightarrow> from \<notin> set (operands (replaceUsesOfWith op from to))"
  by (auto simp: replaceUsesOfWith_def)

lemma checkSplit_fold:
  assumes "f \<notin> set children"
  shows "foldl (\<lambda>op' c. if P c then replaceUsesOfWith op' (OpResult f 0) (OpResult c 0) else op')
           op children =
         (case filter P children of [] \<Rightarrow> op
          | c # _ \<Rightarrow> replaceUsesOfWith op (OpResult f 0) (OpResult c 0))"
  using assms
proof (induction children arbitrary: op)
  case Nil
  then show ?case by simp
next
  case (Cons c cs)
  show ?case
  proof (cases "P c")
    case True
    let ?R = "replaceUsesOfWith op (OpResult f 0) (OpResult c 0)"
    from Cons.prems have "OpResult c 0 \<noteq> OpResult f 0" by auto
    then have gone: "OpResult f 0 \<notin> set (operands ?R)" by (rule replaceUsesOfWith_gone)
    have "foldl (\<lambda>op' c. if P c then replaceUsesOfWith op' (OpResult f 0) (OpResult c 0) else op') ?R cs = ?R"
      using Cons.IH [of ?R] Cons.prems gone
      by (simp add: replaceUsesOfWith_absent split: list.splits)
    with True show ?thesis by simp
  next
    case False
    with Cons show ?thesis by simp
  qed
qed

lemma filter_first:
  "\<exists>x\<in>set xs. P x \<Longrightarrow>
     \<exists>i<length xs. P (xs ! i) \<and> (\<forall>j<i. \<not> P (xs ! j)) \<and> (\<exists>r. filter P xs = xs ! i # r)"
proof (induction xs)
  case Nil
  then show ?case by simp
next
  case (Cons x xs)
  show ?case
  proof (cases "P x")
    case True
    then show ?thesis by (intro exI [of _ 0]) simp
  next
    case False
    with Cons.prems have "\<exists>x\<in>set xs. P x" by simp
    from Cons.IH [OF this] obtain i r where i: "i < length xs" "P (xs ! i)"
      "\<forall>j<i. \<not> P (xs ! j)" "filter P xs = xs ! i # r" by blast
    have "\<forall>j<Suc i. \<not> P ((x # xs) ! j)"
      using i(3) False by (auto simp: nth_Cons split: nat.splits)
    with i False show ?thesis by (intro exI [of _ "Suc i"]) simp
  qed
qed

lemmas ev = elaborateFifo_def Let_def initState_def findObjectFifoSize_def
            maxAcquireLoop_def maxAcquireStep_def tileOfCore_def isAcquire_def fifoOf_def
            acqNumber_def size_fifo_def createObjectFifoElements_def allocateLock_def
            getLockID_def getLockID_loop.simps LockAnalysis_def eval_nat_numeral
            exampleCores_def exampleState_def




text \<open>
  C3 (as amended). A queue with a single consumer that is adjacent to its producer is
  shared and gets no child. Every other queue gets exactly one child per consumer tile,
  adjacent or not, in the order of the consumers; child \<open>i\<close> is declared from consumer
  tile \<open>i\<close> to itself, and no child is the parent. An acquire or release with the consume
  port that names the parent, checked for a kernel on a consumer tile, is rewritten to
  name the first child for that tile and no longer names the parent; one with the produce
  port is left as it is.
\<close>

theorem elaborateFifo_children:
  assumes "f < nextHandle st" and "elaborateFifo adj cores st f = Inr st'"
  shows "(length (consumerTiles (fifoOps st f)) = 1 \<and>
          adj (producerTile (fifoOps st f)) (hd (consumerTiles (fifoOps st f))) \<longrightarrow>
            splitFifos st' = splitFifos st \<and> nextHandle st' = nextHandle st \<and>
            fifoOps st' = fifoOps st)
       \<and> (\<not> (length (consumerTiles (fifoOps st f)) = 1 \<and>
          adj (producerTile (fifoOps st f)) (hd (consumerTiles (fifoOps st f)))) \<longrightarrow>
          (\<exists>children. splitFifos st' f = Some children
             \<and> length children = length (consumerTiles (fifoOps st f))
             \<and> distinct children \<and> f \<notin> set children
             \<and> (\<forall>i<length children.
                   producerTile (fifoOps st' (children ! i)) = consumerTiles (fifoOps st f) ! i \<and>
                   consumerTiles (fifoOps st' (children ! i)) = [consumerTiles (fifoOps st f) ! i])
             \<and> (\<forall>op vs t. operands op = OpResult f 0 # vs \<and> portOf op = Some Consume \<and>
                          t \<in> set (consumerTiles (fifoOps st f)) \<longrightarrow>
                   (\<exists>i<length children. consumerTiles (fifoOps st f) ! i = t \<and>
                      (\<forall>j<i. consumerTiles (fifoOps st f) ! j \<noteq> t) \<and>
                      checkSplitFifo st' op t =
                        Inr (replaceUsesOfWith op (OpResult f 0) (OpResult (children ! i) 0)) \<and>
                      fifoOf (replaceUsesOfWith op (OpResult f 0) (OpResult (children ! i) 0))
                        = Some (children ! i) \<and>
                      OpResult f 0 \<notin> set (operands
                        (replaceUsesOfWith op (OpResult f 0) (OpResult (children ! i) 0)))))
             \<and> (\<forall>op t. portOf op = Some Produce \<longrightarrow> checkSplitFifo st' op t = Inr op)))"
proof (rule conjI; rule impI)
  assume "length (consumerTiles (fifoOps st f)) = 1 \<and>
          adj (producerTile (fifoOps st f)) (hd (consumerTiles (fifoOps st f)))"
  from elaborateFifo_shared [OF this assms(2)]
  show "splitFifos st' = splitFifos st \<and> nextHandle st' = nextHandle st \<and> fifoOps st' = fifoOps st"
    by simp
next
  let ?cs = "consumerTiles (fifoOps st f)"
  let ?n = "nextHandle st"
  let ?ch = "[?n ..< ?n + length ?cs]"
  assume ns: "\<not> (length ?cs = 1 \<and> adj (producerTile (fifoOps st f)) (hd ?cs))"
  note sp = elaborateFifo_split [OF assms(1) ns assms(2)]
  have sf: "splitFifos st' f = Some ?ch" using sp(1) by simp
  have fn: "f \<notin> set ?ch" using assms(1) by simp
  have tiles: "\<forall>i<length ?ch. producerTile (fifoOps st' (?ch ! i)) = ?cs ! i \<and>
                   consumerTiles (fifoOps st' (?ch ! i)) = [?cs ! i]"
    using sp(3) by simp
  have cons: "\<forall>op vs t. operands op = OpResult f 0 # vs \<and> portOf op = Some Consume \<and> t \<in> set ?cs \<longrightarrow>
                   (\<exists>i<length ?ch. ?cs ! i = t \<and> (\<forall>j<i. ?cs ! j \<noteq> t) \<and>
                      checkSplitFifo st' op t =
                        Inr (replaceUsesOfWith op (OpResult f 0) (OpResult (?ch ! i) 0)) \<and>
                      fifoOf (replaceUsesOfWith op (OpResult f 0) (OpResult (?ch ! i) 0))
                        = Some (?ch ! i) \<and>
                      OpResult f 0 \<notin> set (operands
                        (replaceUsesOfWith op (OpResult f 0) (OpResult (?ch ! i) 0))))"
  proof (intro allI impI, elim conjE)
    fix op vs t
    assume ops: "operands op = OpResult f 0 # vs" and port: "portOf op = Some Consume"
      and t: "t \<in> set ?cs"
    let ?P = "\<lambda>c. producerTile (fifoOps st' c) = t"
    from t obtain k where k: "k < length ?cs" "?cs ! k = t" by (auto simp: in_set_conv_nth)
    then have "?P (?ch ! k)" using tiles by simp
    moreover have "?ch ! k \<in> set ?ch" using k by simp
    ultimately have "\<exists>x\<in>set ?ch. ?P x" by blast
    from filter_first [OF this] obtain i r where i: "i < length ?ch" "?P (?ch ! i)"
      "\<forall>j<i. \<not> ?P (?ch ! j)" "filter ?P ?ch = ?ch ! i # r" by blast
    have ti: "?cs ! i = t" using i(1,2) tiles by simp
    have tj: "\<forall>j<i. ?cs ! j \<noteq> t"
    proof (intro allI impI)
      fix j assume j: "j < i"
      with i(1) have "j < length ?ch" by simp
      with tiles have "producerTile (fifoOps st' (?ch ! j)) = ?cs ! j" by blast
      with i(3) j show "?cs ! j \<noteq> t" by auto
    qed
    let ?R = "replaceUsesOfWith op (OpResult f 0) (OpResult (?ch ! i) 0)"
    have fo: "fifoOf op = Some f" using ops by (simp add: fifoOf_def)
    have chk: "checkSplitFifo st' op t = Inr ?R"
      unfolding checkSplitFifo_def using port fo sf checkSplit_fold [OF fn, of ?P op] i(4)
      by simp
    have ne: "?ch ! i \<noteq> f" using fn i(1) by (metis nth_mem)
    have fR: "fifoOf ?R = Some (?ch ! i)"
      using ops by (simp add: fifoOf_def replaceUsesOfWith_def)
    have gone: "OpResult f 0 \<notin> set (operands ?R)"
      by (rule replaceUsesOfWith_gone) (use ne in simp)
    from i(1) ti tj chk fR gone
    show "\<exists>i<length ?ch. ?cs ! i = t \<and> (\<forall>j<i. ?cs ! j \<noteq> t) \<and>
                      checkSplitFifo st' op t =
                        Inr (replaceUsesOfWith op (OpResult f 0) (OpResult (?ch ! i) 0)) \<and>
                      fifoOf (replaceUsesOfWith op (OpResult f 0) (OpResult (?ch ! i) 0))
                        = Some (?ch ! i) \<and>
                      OpResult f 0 \<notin> set (operands
                        (replaceUsesOfWith op (OpResult f 0) (OpResult (?ch ! i) 0)))"
      by blast
  qed
  have prod: "\<forall>op t. portOf op = Some Produce \<longrightarrow> checkSplitFifo st' op t = Inr op"
    by (auto simp: checkSplitFifo_def split: option.splits)
  show "\<exists>children. splitFifos st' f = Some children
             \<and> length children = length ?cs
             \<and> distinct children \<and> f \<notin> set children
             \<and> (\<forall>i<length children.
                   producerTile (fifoOps st' (children ! i)) = ?cs ! i \<and>
                   consumerTiles (fifoOps st' (children ! i)) = [?cs ! i])
             \<and> (\<forall>op vs t. operands op = OpResult f 0 # vs \<and> portOf op = Some Consume \<and>
                          t \<in> set ?cs \<longrightarrow>
                   (\<exists>i<length children. ?cs ! i = t \<and>
                      (\<forall>j<i. ?cs ! j \<noteq> t) \<and>
                      checkSplitFifo st' op t =
                        Inr (replaceUsesOfWith op (OpResult f 0) (OpResult (children ! i) 0)) \<and>
                      fifoOf (replaceUsesOfWith op (OpResult f 0) (OpResult (children ! i) 0))
                        = Some (children ! i) \<and>
                      OpResult f 0 \<notin> set (operands
                        (replaceUsesOfWith op (OpResult f 0) (OpResult (children ! i) 0)))))
             \<and> (\<forall>op t. portOf op = Some Produce \<longrightarrow> checkSplitFifo st' op t = Inr op)"
    using sf fn tiles cons prod by (intro exI [of _ ?ch]) simp
qed


theorem elaborateFifo_children_witness:
  "(\<exists>st' c. elaborateFifo (\<lambda>p c. c = 6) exampleCores (exampleState [6, 7]) 0 = Inr st'
       \<and> checkSplitFifo st' (Operation 21 (ObjectFifoAcquireOp Consume 2) [OpResult 0 0] []) 7
           = Inr (Operation 21 (ObjectFifoAcquireOp Consume 2) [OpResult c 0] [])
       \<and> c \<noteq> 0 \<and> producerTile (fifoOps st' c) = 7)
   \<and> (\<exists>st'. elaborateFifo (\<lambda>p c. c = 6) exampleCores (exampleState [6]) 0 = Inr st'
       \<and> splitFifos st' 0 = None)"
proof (rule conjI)
  let ?st = "exampleState [6, 7]"
  let ?op = "Operation 21 (ObjectFifoAcquireOp Consume 2) [OpResult 0 0] []"
  have "\<exists>st'. elaborateFifo (\<lambda>p c. c = 6) exampleCores ?st 0 = Inr st'"
    by (simp add: ev)
  then obtain st' where ok: "elaborateFifo (\<lambda>p c. c = 6) exampleCores ?st 0 = Inr st'" ..
  have h: "0 < nextHandle ?st" by (simp add: exampleState_def initState_def)
  have cs: "consumerTiles (fifoOps ?st 0) = [6, 7]" by (simp add: exampleState_def initState_def)
  let ?cs = "consumerTiles (fifoOps ?st 0)"
  have ns: "\<not> (length ?cs = 1 \<and> (\<lambda>p c. c = 6) (producerTile (fifoOps ?st 0)) (hd ?cs))"
    by (simp add: cs)
  from elaborateFifo_children [OF h ok, THEN conjunct2, THEN mp, OF ns]
  obtain children where raw: "0 \<notin> set children"
      "\<forall>i<length children.
          producerTile (fifoOps st' (children ! i)) = ?cs ! i \<and>
          consumerTiles (fifoOps st' (children ! i)) = [?cs ! i]"
      "\<forall>op vs t. operands op = OpResult 0 0 # vs \<and> portOf op = Some Consume \<and> t \<in> set ?cs \<longrightarrow>
          (\<exists>i<length children. ?cs ! i = t \<and> (\<forall>j<i. ?cs ! j \<noteq> t) \<and>
              checkSplitFifo st' op t =
                Inr (replaceUsesOfWith op (OpResult 0 0) (OpResult (children ! i) 0)) \<and>
              fifoOf (replaceUsesOfWith op (OpResult 0 0) (OpResult (children ! i) 0))
                = Some (children ! i) \<and>
              OpResult 0 0 \<notin> set (operands
                (replaceUsesOfWith op (OpResult 0 0) (OpResult (children ! i) 0))))"
    by blast
  have ch: "0 \<notin> set children" "0 \<notin> set children"
      "\<forall>i<length children. producerTile (fifoOps st' (children ! i)) = [6, 7] ! i"
    using raw(1,2) unfolding cs by simp_all
  have "operands ?op = OpResult 0 0 # [] \<and> portOf ?op = Some Consume \<and> 7 \<in> set ?cs"
    by (simp add: portOf_def cs)
  from raw(3) [rule_format, OF this] have ch4: "\<exists>i<length children. ?cs ! i = 7 \<and> (\<forall>j<i. ?cs ! j \<noteq> 7) \<and>
              checkSplitFifo st' ?op 7 =
                Inr (replaceUsesOfWith ?op (OpResult 0 0) (OpResult (children ! i) 0)) \<and>
              fifoOf (replaceUsesOfWith ?op (OpResult 0 0) (OpResult (children ! i) 0))
                = Some (children ! i) \<and>
              OpResult 0 0 \<notin> set (operands
                (replaceUsesOfWith ?op (OpResult 0 0) (OpResult (children ! i) 0)))"
    .
  from ch4 obtain i where i0: "i < length children" "?cs ! i = 7"
     "checkSplitFifo st' ?op 7 = Inr (replaceUsesOfWith ?op (OpResult 0 0) (OpResult (children ! i) 0))"
    by (elim exE conjE)
  have i: "i < length children" "[6, 7] ! i = (7 :: nat)"
     "checkSplitFifo st' ?op 7 = Inr (replaceUsesOfWith ?op (OpResult 0 0) (OpResult (children ! i) 0))"
    using i0 unfolding cs by simp_all
  have "children ! i \<noteq> 0" using ch(2) i(1) by (metis nth_mem)
  moreover have "producerTile (fifoOps st' (children ! i)) = 7" using ch(3) i(1,2) by simp
  moreover have "checkSplitFifo st' ?op 7 =
      Inr (Operation 21 (ObjectFifoAcquireOp Consume 2) [OpResult (children ! i) 0] [])"
    using i(3) by (simp add: replaceUsesOfWith_def)
  ultimately show "\<exists>st' c. elaborateFifo (\<lambda>p c. c = 6) exampleCores ?st 0 = Inr st'
       \<and> checkSplitFifo st' ?op 7 = Inr (Operation 21 (ObjectFifoAcquireOp Consume 2) [OpResult c 0] [])
       \<and> c \<noteq> 0 \<and> producerTile (fifoOps st' c) = 7"
    using ok by blast
next
  let ?st = "exampleState [6]"
  have "\<exists>st'. elaborateFifo (\<lambda>p c. c = 6) exampleCores ?st 0 = Inr st'"
    by (simp add: ev)
  then obtain st' where ok: "elaborateFifo (\<lambda>p c. c = 6) exampleCores ?st 0 = Inr st'" ..
  have h: "0 < nextHandle ?st" by (simp add: exampleState_def initState_def)
  from elaborateFifo_children [OF h ok]
  have "splitFifos st' = splitFifos ?st" by (simp add: exampleState_def initState_def)
  then have "splitFifos st' 0 = None" by (simp add: exampleState_def initState_def)
  with ok show "\<exists>st'. elaborateFifo (\<lambda>p c. c = 6) exampleCores ?st 0 = Inr st' \<and> splitFifos st' 0 = None"
    by blast
qed

text \<open>
  C3 fails as stated: queue 0 has the consumers 6 (adjacent to the producer) and 7 (not
  adjacent). There is one non-adjacent consumer, but two children are created, and the
  first of them is for the adjacent consumer 6.
\<close>

theorem child_per_consumer_counterexample:
  "\<exists>st'. elaborateFifo (\<lambda>p c. c = 6) exampleCores (exampleState [6, 7]) 0 = Inr st'
         \<and> splitFifos st' 0 = Some [1, 2]
         \<and> producerTile (fifoOps st' 1) = 6
         \<and> producerTile (fifoOps st' 2) = 7
         \<and> filter (\<lambda>c. \<not> (\<lambda>p c. c = 6) (5 :: tile) c) [6, 7 :: tile] = [7]
         \<and> length [1, 2 :: fifo] \<noteq> length (filter (\<lambda>c. \<not> (\<lambda>p c. c = 6) (5 :: tile) c) [6, 7 :: tile])"
  by (simp add: ev)

section \<open>Resolving acquires and releases: properties\<close>

lemma twoFifoState_elaborated: "(case elaborateFifo (\<lambda>p c. True) [] (initState [] (\<lambda>_. \<lparr>producerTile = 5, consumerTiles = [6], elemNumber = 2, elemType = [16]\<rparr>) 2) 0 of
   Inr st \<Rightarrow> elaborateFifo (\<lambda>p c. True) [] st 1) = Inr twoFifoState"
  apply (simp add: ev twoFifoState_def)
  apply (auto simp: fun_eq_iff)
  done

lemma enclosingCore_None:
  "enclosingCore parents = None \<longleftrightarrow> (\<forall>p\<in>set parents. tileOfCore p = None)"
  by (induction parents) (auto simp: tileOfCore_def split: opname.splits)

text \<open>
  C7. \<^verbatim>\<open>checkCorrectPort\<close> fails with the message of the producer port when the port is
  "produce" and the tile of the enclosing core is not the producer tile of the queue; with
  the message of the consumer port when the port is "consume" and that tile is not among
  the consumer tiles of the queue; and with "must be used inside a CoreOp" when no
  operation around the acquire or release is a core. It succeeds only when an enclosing
  core exists and its tile matches the port. Both resolution sites pass its failure on:
  resolving an acquire or a release whose check fails is that fatal error.
\<close>

theorem checkCorrectPort_fatal:
  "(portOf op = Some Produce \<and> fifoOf op = Some q \<and> enclosingCore parents = Some t \<and>
      t \<noteq> producerTile (fifoOps st q) \<longrightarrow> checkCorrectPort st op parents = Inl NonProducerTile)
   \<and> (portOf op = Some Consume \<and> fifoOf op = Some q \<and> enclosingCore parents = Some t \<and>
      t \<notin> set (consumerTiles (fifoOps st q)) \<longrightarrow> checkCorrectPort st op parents = Inl NonConsumerTile)
   \<and> (portOf op \<noteq> None \<and> (\<forall>p\<in>set parents. tileOfCore p = None) \<longrightarrow>
         checkCorrectPort st op parents = Inl NotInsideCore)
   \<and> (checkCorrectPort st op parents = Inr () \<longleftrightarrow>
         (\<exists>port q t. portOf op = Some port \<and> fifoOf op = Some q \<and> enclosingCore parents = Some t \<and>
            (case port of Produce \<Rightarrow> t = producerTile (fifoOps st q)
                        | Consume \<Rightarrow> t \<in> set (consumerTiles (fifoOps st q)))))
   \<and> (\<forall>l tile cs e op'. checkSplitFifo st (theOp l) tile = Inr op' \<and>
          checkCorrectPort st op' (map fst (ancestors l)) = Inl e \<longrightarrow>
          resolveAcquire st tile cs l = Inl e \<and> resolveRelease st tile cs l = Inl e)"
proof (intro conjI)
  show "portOf op = Some Produce \<and> fifoOf op = Some q \<and> enclosingCore parents = Some t \<and>
      t \<noteq> producerTile (fifoOps st q) \<longrightarrow> checkCorrectPort st op parents = Inl NonProducerTile"
    by (simp add: checkCorrectPort_def)
  show "portOf op = Some Consume \<and> fifoOf op = Some q \<and> enclosingCore parents = Some t \<and>
      t \<notin> set (consumerTiles (fifoOps st q)) \<longrightarrow> checkCorrectPort st op parents = Inl NonConsumerTile"
    by (simp add: checkCorrectPort_def)
  show "portOf op \<noteq> None \<and> (\<forall>p\<in>set parents. tileOfCore p = None) \<longrightarrow>
         checkCorrectPort st op parents = Inl NotInsideCore"
    using enclosingCore_None [of parents] by (auto simp: checkCorrectPort_def)
  show "checkCorrectPort st op parents = Inr () \<longleftrightarrow>
         (\<exists>port q t. portOf op = Some port \<and> fifoOf op = Some q \<and> enclosingCore parents = Some t \<and>
            (case port of Produce \<Rightarrow> t = producerTile (fifoOps st q)
                        | Consume \<Rightarrow> t \<in> set (consumerTiles (fifoOps st q))))"
    by (auto simp: checkCorrectPort_def split: option.splits ObjectFifoPort.splits)
  show "\<forall>l tile cs e op'. checkSplitFifo st (theOp l) tile = Inr op' \<and>
          checkCorrectPort st op' (map fst (ancestors l)) = Inl e \<longrightarrow>
          resolveAcquire st tile cs l = Inl e \<and> resolveRelease st tile cs l = Inl e"
    by (simp add: resolveAcquire_def resolveRelease_def)
qed

theorem checkCorrectPort_fatal_witness:
  "checkCorrectPort twoFifoState (Operation 11 (ObjectFifoAcquireOp Produce 1) [OpResult 0 0] [])
       [Operation 10 (CoreOp 6) [] []] = Inl NonProducerTile
   \<and> checkCorrectPort twoFifoState (Operation 11 (ObjectFifoAcquireOp Consume 1) [OpResult 0 0] [])
       [Operation 9 ForOp [] [], Operation 10 (CoreOp 5) [] []] = Inl NonConsumerTile
   \<and> checkCorrectPort twoFifoState (Operation 11 (ObjectFifoReleaseOp Consume 1) [OpResult 0 0] [])
       [Operation 9 ForOp [] []] = Inl NotInsideCore
   \<and> checkCorrectPort twoFifoState (Operation 11 (ObjectFifoReleaseOp Consume 1) [OpResult 0 0] [])
       [Operation 9 ForOp [] [], Operation 10 (CoreOp 6) [] []] = Inr ()
   \<and> resolveAcquire twoFifoState 5 emptyCoreState
       \<lparr>theOp = Operation 11 (ObjectFifoAcquireOp Consume 1) [OpResult 0 0] [], atPos = 0,
        ancestors = [(Operation 10 (CoreOp 5) [] [], 0)]\<rparr> = Inl NonConsumerTile"
proof -
  let ?st = twoFifoState
  have q: "fifoOps ?st 0 = \<lparr>producerTile = 5, consumerTiles = [6], elemNumber = 2, elemType = [16]\<rparr>"
    by (simp add: twoFifoState_def)
  have a: "checkCorrectPort ?st (Operation 11 (ObjectFifoAcquireOp Produce 1) [OpResult 0 0] [])
       [Operation 10 (CoreOp 6) [] []] = Inl NonProducerTile"
    using checkCorrectPort_fatal [of "Operation 11 (ObjectFifoAcquireOp Produce 1) [OpResult 0 0] []"
        0 "[Operation 10 (CoreOp 6) [] []]" 6 ?st]
    by (simp add: portOf_def fifoOf_def q)
  have b: "checkCorrectPort ?st (Operation 11 (ObjectFifoAcquireOp Consume 1) [OpResult 0 0] [])
       [Operation 9 ForOp [] [], Operation 10 (CoreOp 5) [] []] = Inl NonConsumerTile"
    using checkCorrectPort_fatal [of "Operation 11 (ObjectFifoAcquireOp Consume 1) [OpResult 0 0] []"
        0 "[Operation 9 ForOp [] [], Operation 10 (CoreOp 5) [] []]" 5 ?st]
    by (simp add: portOf_def fifoOf_def q)
  have c: "checkCorrectPort ?st (Operation 11 (ObjectFifoReleaseOp Consume 1) [OpResult 0 0] [])
       [Operation 9 ForOp [] []] = Inl NotInsideCore"
    using checkCorrectPort_fatal [of "Operation 11 (ObjectFifoReleaseOp Consume 1) [OpResult 0 0] []"
        0 "[Operation 9 ForOp [] []]" 5 ?st]
    by (simp add: portOf_def tileOfCore_def)
  have d: "checkCorrectPort ?st (Operation 11 (ObjectFifoReleaseOp Consume 1) [OpResult 0 0] [])
       [Operation 9 ForOp [] [], Operation 10 (CoreOp 6) [] []] = Inr ()"
    using checkCorrectPort_fatal [of "Operation 11 (ObjectFifoReleaseOp Consume 1) [OpResult 0 0] []"
        0 "[Operation 9 ForOp [] [], Operation 10 (CoreOp 6) [] []]" 6 ?st]
    by (simp add: portOf_def fifoOf_def q)
  let ?l = "\<lparr>theOp = Operation 11 (ObjectFifoAcquireOp Consume 1) [OpResult 0 0] [], atPos = 0,
        ancestors = [(Operation 10 (CoreOp 5) [] [], 0)]\<rparr>"
  have s: "checkSplitFifo ?st (theOp ?l) 5 = Inr (Operation 11 (ObjectFifoAcquireOp Consume 1) [OpResult 0 0] [])"
    by (simp add: checkSplitFifo_def portOf_def fifoOf_def twoFifoState_def)
  have p: "checkCorrectPort ?st (Operation 11 (ObjectFifoAcquireOp Consume 1) [OpResult 0 0] [])
             (map fst (ancestors ?l)) = Inl NonConsumerTile"
    using checkCorrectPort_fatal [of "Operation 11 (ObjectFifoAcquireOp Consume 1) [OpResult 0 0] []"
        0 "[Operation 10 (CoreOp 5) [] []]" 5 ?st]
    by (simp add: portOf_def fifoOf_def q)
  have e: "resolveAcquire ?st 5 emptyCoreState ?l = Inl NonConsumerTile"
    using checkCorrectPort_fatal [of _ _ _ _ ?st, THEN conjunct2, THEN conjunct2, THEN conjunct2,
        THEN conjunct2, rule_format, of ?l 5 _ NonConsumerTile emptyCoreState] s p
    by blast
  from a b c d e show ?thesis by blast
qed

lemma createUseLocks_error:
  "createUseLocks st anchor q acc n mode action out = Inl e \<Longrightarrow> e = UndefinedBehaviour"
  by (induction n arbitrary: acc out) (auto simp: Let_def split: if_splits)

lemma subviewRefs_error: "subviewRefs bufs idx = Inl e \<Longrightarrow> e = UndefinedBehaviour"
  by (auto simp: subviewRefs_def split: if_splits)

text \<open>
  C8 (as amended). At an acquire that passes the substitution and the port check, with
  \<open>numRel\<close> the total count of the pending releases applied: when the kernel holds at least
  one slot of the queue and \<open>numRel\<close> exceeds the number of slots held, resolving the acquire
  fails with "Cannot release more elements than are already acquired."; when the kernel
  holds no slot of the queue, that failure never occurs, whatever \<open>numRel\<close> is. The failure
  occurs exactly when slots are held and \<open>numRel\<close>, read as an unsigned number, exceeds
  their number.
\<close>

theorem resolveAcquire_release_check:
  assumes "checkSplitFifo st (theOp a) tile = Inr a'"
    and "checkCorrectPort st a' (map fst (ancestors a)) = Inr ()"
    and "fifoOf a' = Some q"
    and "scanReleaseOps (a\<lparr>theOp := a'\<rparr>) q (releaseOps cs) = (numRel, rels')"
  shows "(acquiresPerFifo cs q \<noteq> [] \<and> int (length (acquiresPerFifo cs q)) < numRel \<longrightarrow>
            resolveAcquire st tile cs a = Inl ReleaseMoreThanAcquired)
       \<and> (acquiresPerFifo cs q = [] \<longrightarrow> resolveAcquire st tile cs a \<noteq> Inl ReleaseMoreThanAcquired)
       \<and> (resolveAcquire st tile cs a = Inl ReleaseMoreThanAcquired \<longleftrightarrow>
            acquiresPerFifo cs q \<noteq> [] \<and>
            (numRel < 0 \<or> int (length (acquiresPerFifo cs q)) < numRel))"
proof -
  from assms(2) obtain port where port: "portOf a' = Some port"
    by (auto simp: checkCorrectPort_def split: option.splits)
  obtain start acq' where u: "updateAndReturnIndex (acqPerFifo cs) q = (start, acq')"
    by (cases "updateAndReturnIndex (acqPerFifo cs) q")
  have iff: "resolveAcquire st tile cs a = Inl ReleaseMoreThanAcquired \<longleftrightarrow>
            acquiresPerFifo cs q \<noteq> [] \<and>
            (numRel < 0 \<or> int (length (acquiresPerFifo cs q)) < numRel)"
  proof (cases "trackAcquired (acquiresPerFifo cs q) numRel")
    case (Inl e)
    then have "e = ReleaseMoreThanAcquired" and
      "acquiresPerFifo cs q \<noteq> [] \<and> (numRel < 0 \<or> int (length (acquiresPerFifo cs q)) < numRel)"
      by (auto simp: trackAcquired_def split: if_splits)
    with Inl assms port u show ?thesis
      by (simp add: resolveAcquire_def Let_def)
  next
    case (Inr idx)
    then have no: "\<not> (acquiresPerFifo cs q \<noteq> [] \<and>
        (numRel < 0 \<or> int (length (acquiresPerFifo cs q)) < numRel))"
      by (auto simp: trackAcquired_def split: if_splits)
    have "resolveAcquire st tile cs a \<noteq> Inl ReleaseMoreThanAcquired"
      using Inr assms port u
      by (auto simp: resolveAcquire_def Let_def split: sum.splits prod.splits
               dest: createUseLocks_error subviewRefs_error)
    with no show ?thesis by simp
  qed
  then show ?thesis by auto
qed

theorem resolveAcquire_release_check_witness:
  "resolveAcquire twoFifoState 5
     (emptyCoreState\<lparr>acquiresPerFifo := (\<lambda>f. if f = 1 then [0] else []),
                     releaseOps := [walkAt [] 0 overReleaseCore ! 1]\<rparr>)
     (walkAt [] 0 overReleaseCore ! 2) = Inl ReleaseMoreThanAcquired
   \<and> resolveAcquire twoFifoState 5
     (emptyCoreState\<lparr>releaseOps := [walkAt [] 0 overReleaseCore ! 1]\<rparr>)
     (walkAt [] 0 overReleaseCore ! 2) \<noteq> Inl ReleaseMoreThanAcquired"
proof -
  let ?a = "walkAt [] 0 overReleaseCore ! 2"
  let ?r = "walkAt [] 0 overReleaseCore ! 1"
  let ?a' = "Operation 13 (ObjectFifoAcquireOp Produce 1) [OpResult 1 0] []"
  let ?cs1 = "emptyCoreState\<lparr>acquiresPerFifo := (\<lambda>f. if f = 1 then [0] else []), releaseOps := [?r]\<rparr>"
  let ?cs2 = "emptyCoreState\<lparr>releaseOps := [?r]\<rparr>"
  have h1: "checkSplitFifo twoFifoState (theOp ?a) 5 = Inr ?a'" by code_simp
  have h2: "checkCorrectPort twoFifoState ?a' (map fst (ancestors ?a)) = Inr ()" by code_simp
  have h3: "fifoOf ?a' = Some 1" by code_simp
  have h4: "scanReleaseOps (?a\<lparr>theOp := ?a'\<rparr>) 1 (releaseOps ?cs1) = (2, [])" by code_simp
  have h5: "scanReleaseOps (?a\<lparr>theOp := ?a'\<rparr>) 1 (releaseOps ?cs2) = (2, [])" by code_simp
  have "resolveAcquire twoFifoState 5 ?cs1 ?a = Inl ReleaseMoreThanAcquired"
    using resolveAcquire_release_check [OF h1 h2 h3 h4] by simp
  moreover have "resolveAcquire twoFifoState 5 ?cs2 ?a \<noteq> Inl ReleaseMoreThanAcquired"
    using resolveAcquire_release_check [OF h1 h2 h3 h5] by (simp add: emptyCoreState_def)
  ultimately show ?thesis by blast
qed


text \<open>
  C8 fails as stated: a kernel that holds no slot of queue 1 releases one element and then
  acquires one. The release is applied at the acquire (\<open>numRel = 1\<close>, more than the zero slots
  held), and the core is resolved without a fatal error.
\<close>

theorem release_without_acquire_counterexample:
  "(let rel = walkAt [] 0 releaseFirstCore ! 0; acq = walkAt [] 0 releaseFirstCore ! 1 in
      scanReleaseOps acq 1 [rel] = (1, [])
      \<and> acquiresPerFifo emptyCoreState 1 = []
      \<and> int (length (acquiresPerFifo emptyCoreState 1)) < fst (scanReleaseOps acq 1 [rel])
      \<and> map_sum id (\<lambda>cs. (acquiresPerFifo cs 1, map (opId \<circ> theOp) (releaseOps cs)))
           (resolveCore twoFifoState releaseFirstCore) = Inr ([0], []))"
  by code_simp

text \<open>
  C2, evaluated where the code departs from it. The pending releases are the one of queue 0
  (operation 13) and the one of queue 1 (operation 14). The acquire 15 on queue 1 matches
  the entry 14, yet the entry erased is the first one, 13: after the core is resolved the
  pending list still holds 14. A further acquire 16 on queue 1 then counts 14 a second
  time: it drops slot 1, which the kernel still holds, and acquires slot 0 anew.
\<close>

theorem release_erased_at_front:
  "map_sum id (\<lambda>cs. (map (opId \<circ> theOp) (releaseOps cs), acquiresPerFifo cs 1, subviews cs 15))
     (resolveCore twoFifoState (twoFifoCore []))
   = Inr ([14], [1], Some [\<lparr>buf_type = [16], buf_tile = 5, buf_index = 3\<rparr>])
   \<and> map_sum id (\<lambda>cs. (map (opId \<circ> theOp) (releaseOps cs), acquiresPerFifo cs 1, subviews cs 16))
     (resolveCore twoFifoState
        (twoFifoCore [Operation 16 (ObjectFifoAcquireOp Produce 1) [OpResult 1 0] []]))
   = Inr ([], [0], Some [\<lparr>buf_type = [16], buf_tile = 5, buf_index = 2\<rparr>])"
  by code_simp

section \<open>DMA chains: properties\<close>

lemma createBdBlocks_ring:
  assumes "idx + k = D" "D \<le> length buffers" "D \<le> length locks" "0 < k"
    "currB = base + idx" "fresh = Suc (base + idx)"
  shows "createBdBlocks k m buffers locks idx currB base fresh built =
     Inr (built @ map (\<lambda>i. \<lparr>block_id = base + i,
                             block_ops = createBdBlock m (buffers ! i) (locks ! i)
                                           (base + (Suc i) mod D)\<rparr>) [idx..<D],
          base + D)"
  using assms
proof (induction k arbitrary: idx currB fresh built)
  case 0
  then show ?case by simp
next
  case (Suc k)
  have idx: "idx < D" using Suc.prems(1) by simp
  show ?case
  proof (cases "k = 0")
    case True
    then have D: "D = Suc idx" using Suc.prems(1) by simp
    have "[idx..<D] = [idx]" using D by simp
    moreover have "Suc idx mod D = 0" using D by simp
    ultimately show ?thesis using True Suc.prems D
      by (simp add: Let_def)
  next
    case False
    then have k: "0 < k" by simp
    have md: "Suc idx mod D = Suc idx" using Suc.prems(1) k by simp
    have up: "[idx..<D] = idx # [Suc idx..<D]" using idx by (simp add: upt_conv_Cons)
    have "createBdBlocks k m buffers locks (Suc idx) (base + Suc idx) base (Suc (base + Suc idx))
             (built @ [\<lparr>block_id = currB,
                         block_ops = createBdBlock m (buffers ! idx) (locks ! idx) fresh\<rparr>]) =
          Inr ((built @ [\<lparr>block_id = currB,
                         block_ops = createBdBlock m (buffers ! idx) (locks ! idx) fresh\<rparr>]) @
               map (\<lambda>i. \<lparr>block_id = base + i,
                             block_ops = createBdBlock m (buffers ! i) (locks ! i)
                                           (base + (Suc i) mod D)\<rparr>) [Suc idx..<D],
               base + D)"
      using Suc.prems k by (intro Suc.IH) auto
    then show ?thesis using False Suc.prems idx md up
      by (simp add: Let_def)
  qed
qed


lemma relink_Inr:
  assumes "\<forall>bl\<in>set bls. block_id bl = l \<longrightarrow> startsDMA bl"
  shows "\<exists>bls'. relink bls l dma = Inr bls' \<and> list_all2 (relinked l dma) bls bls'"
  using assms
proof (induction bls)
  case Nil
  then show ?case by simp
next
  case (Cons bl bls)
  then obtain bls' where r: "relink bls l dma = Inr bls'" "list_all2 (relinked l dma) bls bls'"
    by auto
  show ?case
  proof (cases "block_id bl = l")
    case True
    with Cons.prems have "startsDMA bl" by simp
    then obtain c dest chain where t: "block_ops bl \<noteq> []" "last (block_ops bl) = DMAStartOp c dest chain"
      by (auto simp: startsDMA_def split: memop.splits)
    let ?bl' = "bl\<lparr>block_ops := butlast (block_ops bl) @ [DMAStartOp c dest dma]\<rparr>"
    have "setSuccessor1 bl dma = Inr ?bl'"
      using t by (auto simp: setSuccessor1_def split: list.splits)
    moreover have "relinked l dma bl ?bl'"
      using True t by (simp add: relinked_def)
    ultimately show ?thesis using True r by simp
  next
    case False
    then have "relinked l dma bl bl" by (simp add: relinked_def)
    with False r show ?thesis by simp
  qed
qed

lemma foldl_times_prod_list: "foldl (\<lambda>len i. len * i) (a :: int) xs = a * prod_list xs"
  by (induction xs arbitrary: a) (simp_all add: mult.assoc)

lemma createBdBlock_ops:
  "createBdBlock m buff lock succ =
     [MemUseLockOp lock (if m = 0 then 1 else 0) Acquire,
      DMABDOp buff 0 (prod_list (buf_type buff)) 0,
      MemUseLockOp lock (if m = 0 then 0 else 1) Release,
      BranchOp succ]"
  by (simp add: createBdBlock_def Let_def foldl_times_prod_list)

lemma createDMABlocks_ring:
  assumes D: "1 \<le> D" "nat D \<le> length buffers" "nat D \<le> length locks"
    and e: "findEndOpBlock blocks = Some e"
    and link: "\<forall>l. getSinglePredecessor blocks e = Some l \<longrightarrow>
                 (\<forall>bl\<in>set blocks. block_id bl = l \<longrightarrow> startsDMA bl)"
  shows "\<exists>before' after'.
     createDMABlocks blocks fresh chan m D buffers locks =
       Inr (before' @
            [\<lparr>block_id = fresh, block_ops = [DMAStartOp chan (Suc fresh) e]\<rparr>] @
            map (\<lambda>i. \<lparr>block_id = Suc fresh + i,
                      block_ops = [MemUseLockOp (locks ! i) (if m = 0 then 1 else 0) Acquire,
                                   DMABDOp (buffers ! i) 0 (prod_list (buf_type (buffers ! i))) 0,
                                   MemUseLockOp (locks ! i) (if m = 0 then 0 else 1) Release,
                                   BranchOp (Suc fresh + Suc i mod nat D)]\<rparr>) [0..<nat D] @
            after',
            Suc fresh + nat D)
     \<and> (case getSinglePredecessor blocks e of
          None \<Rightarrow> before' = takeWhile (\<lambda>bl. block_id bl \<noteq> e) blocks \<and>
                  after' = dropWhile (\<lambda>bl. block_id bl \<noteq> e) blocks
        | Some l \<Rightarrow>
            list_all2 (relinked l fresh) (takeWhile (\<lambda>bl. block_id bl \<noteq> e) blocks) before' \<and>
            list_all2 (relinked l fresh) (dropWhile (\<lambda>bl. block_id bl \<noteq> e) blocks) after')"
proof -
  let ?before = "takeWhile (\<lambda>bl. block_id bl \<noteq> e) blocks"
  let ?after = "dropWhile (\<lambda>bl. block_id bl \<noteq> e) blocks"
  have ring: "createBdBlocks (nat D) m buffers locks 0 (Suc fresh) (Suc fresh) (Suc (Suc fresh)) [] =
     Inr ([] @ map (\<lambda>i. \<lparr>block_id = Suc fresh + i,
                             block_ops = createBdBlock m (buffers ! i) (locks ! i)
                                           (Suc fresh + (Suc i) mod nat D)\<rparr>) [0..<nat D],
          Suc fresh + nat D)"
    using D by (intro createBdBlocks_ring) auto
  have pos: "\<not> D \<le> 0" using D by simp
  show ?thesis
  proof (cases "getSinglePredecessor blocks e")
    case None
    then show ?thesis
      using e ring pos by (simp add: createDMABlocks_def Let_def createBdBlock_ops)
  next
    case (Some l)
    with link have st: "\<forall>bl\<in>set blocks. block_id bl = l \<longrightarrow> startsDMA bl" by simp
    have "\<forall>bl\<in>set ?before. block_id bl = l \<longrightarrow> startsDMA bl"
      using st by (auto dest: set_takeWhileD)
    from relink_Inr [OF this, of fresh] obtain b' where
      b: "relink ?before l fresh = Inr b'" "list_all2 (relinked l fresh) ?before b'" by blast
    have "\<forall>bl\<in>set ?after. block_id bl = l \<longrightarrow> startsDMA bl"
      using st by (auto dest: set_dropWhileD)
    from relink_Inr [OF this, of fresh] obtain a' where
      a: "relink ?after l fresh = Inr a'" "list_all2 (relinked l fresh) ?after a'" by blast
    show ?thesis
      using Some e ring pos a b
      by (intro exI [of _ b'] exI [of _ a']) (simp add: createDMABlocks_def Let_def createBdBlock_ops)
  qed
qed

lemma findMemOp_first:
  "findMemOp mems t = Some k \<Longrightarrow>
     k < length mems \<and> mem_tile (mems ! k) = t \<and> (\<forall>j<k. mem_tile (mems ! j) \<noteq> t)"
proof (induction mems arbitrary: k)
  case Nil
  then show ?case by simp
next
  case (Cons memOp rest)
  show ?case
  proof (cases "mem_tile memOp = t")
    case True
    with Cons.prems show ?thesis by simp
  next
    case False
    with Cons.prems obtain k' where k': "findMemOp rest t = Some k'" "k = Suc k'" by auto
    from Cons.IH [OF k'(1)] False k'(2) show ?thesis by (auto simp: less_Suc_eq_0_disj)
  qed
qed

lemma findMemOp_None: "findMemOp mems t = None \<longleftrightarrow> (\<forall>memOp\<in>set mems. mem_tile memOp \<noteq> t)"
  by (induction mems) auto

lemma deref_endOfScope: "deref (endOfScope p) = Inl UndefinedBehaviour"
  by (cases p) (simp_all add: deref_def endOfScope_def)

text \<open>
  What the rest of \<^verbatim>\<open>createDMA\<close> builds in a region it is given: in a region with only an
  end block, for two buffers and locks of tile 5, the chain of \<open>oneChainDma\<close>; in that
  region, a second chain placed before the end block, to which the DMA block of the first
  chain is linked.
\<close>

lemma createDMABlocks_example:
  "createDMABlocks [\<lparr>block_id = 0, block_ops = [EndOp]\<rparr>] 1 MM2S0 0 2
      (buffersPerFifo twoFifoState 0) (locksPerFifo twoFifoState 0) =
     Inr (mem_body (memOps oneChainDma ! 0), 4)
   \<and> createDMABlocks (mem_body (memOps oneChainDma ! 0)) 4 MM2S1 0 2
      (buffersPerFifo twoFifoState 1) (locksPerFifo twoFifoState 1) =
     Inr ([\<lparr>block_id = 1, block_ops = [DMAStartOp MM2S0 2 4]\<rparr>,
           \<lparr>block_id = 2, block_ops =
              [MemUseLockOp \<lparr>lock_tile = 5, lock_lockID = 0\<rparr> 1 Acquire,
               DMABDOp \<lparr>buf_type = [16], buf_tile = 5, buf_index = 0\<rparr> 0 16 0,
               MemUseLockOp \<lparr>lock_tile = 5, lock_lockID = 0\<rparr> 0 Release,
               BranchOp 3]\<rparr>,
           \<lparr>block_id = 3, block_ops =
              [MemUseLockOp \<lparr>lock_tile = 5, lock_lockID = 1\<rparr> 1 Acquire,
               DMABDOp \<lparr>buf_type = [16], buf_tile = 5, buf_index = 1\<rparr> 0 16 0,
               MemUseLockOp \<lparr>lock_tile = 5, lock_lockID = 1\<rparr> 0 Release,
               BranchOp 2]\<rparr>,
           \<lparr>block_id = 4, block_ops = [DMAStartOp MM2S1 5 0]\<rparr>,
           \<lparr>block_id = 5, block_ops =
              [MemUseLockOp \<lparr>lock_tile = 5, lock_lockID = 2\<rparr> 1 Acquire,
               DMABDOp \<lparr>buf_type = [16], buf_tile = 5, buf_index = 2\<rparr> 0 16 0,
               MemUseLockOp \<lparr>lock_tile = 5, lock_lockID = 2\<rparr> 0 Release,
               BranchOp 6]\<rparr>,
           \<lparr>block_id = 6, block_ops =
              [MemUseLockOp \<lparr>lock_tile = 5, lock_lockID = 3\<rparr> 1 Acquire,
               DMABDOp \<lparr>buf_type = [16], buf_tile = 5, buf_index = 3\<rparr> 0 16 0,
               MemUseLockOp \<lparr>lock_tile = 5, lock_lockID = 3\<rparr> 0 Release,
               BranchOp 5]\<rparr>,
           \<lparr>block_id = 0, block_ops = [EndOp]\<rparr>], 7)"
  by code_simp

text \<open>
  \<^verbatim>\<open>createDMA\<close> on every input: nothing is built for depth 0, the assertion fails for a
  depth above 14, and for every depth from 1 to 14 the \<^verbatim>\<open>MemOp\<close> is read through
  \<^verbatim>\<open>producerMem\<close> after the scope of the local it points to has ended, whether the search
  found a \<^verbatim>\<open>MemOp\<close> of the tile or a new one was created.
\<close>

lemma createDMA_cases:
  "createDMA st ds q chan m =
     (if size_fifo (fifoOps st q) = 0 then Inr ds
      else if 14 < size_fifo (fifoOps st q) then Inl TooManyBlocks
      else Inl UndefinedBehaviour)"
proof (cases "findMemOp (memOps ds) (producerTile (fifoOps st q))")
  case None
  then show ?thesis
    by (simp add: createDMA_def Let_def deref_endOfScope)
next
  case (Some k)
  have "endOfScope (AddressOf k True) \<noteq> nullptr" by (simp add: endOfScope_def)
  with Some show ?thesis
    by (simp add: createDMA_def Let_def deref_endOfScope)
qed

text \<open>
  C6. For a queue of depth \<open>D\<close> with \<open>1 \<le> D \<le> 14\<close> the claim has \<^verbatim>\<open>createDMA\<close> build a ring
  of \<open>D\<close> descriptor blocks after the last chain of the node. The code does not get there:
  for queue 0 of depth 2 from tile 5, split towards tile 7, handed to \<^verbatim>\<open>createDMA\<close> with
  lock mode 0, the behaviour is undefined, both in a module without a \<^verbatim>\<open>MemOp\<close> for tile 5
  (\<^verbatim>\<open>producerMem\<close> is the address of \<^verbatim>\<open>newMemOp\<close>, read after the block of the \<^verbatim>\<open>if\<close>) and
  in a module that has one (\<^verbatim>\<open>producerMem\<close> is the address of the loop variable \<^verbatim>\<open>memOp\<close>,
  read after the loop). The parts of the claim for depth 0 (nothing is built) and for a
  depth above 14 (the assertion fails) hold at the same inputs with those depths.
\<close>

theorem createDMA_reads_local_out_of_scope:
  "createDMA splitState \<lparr>memOps = [], nextBlock = 0\<rparr> 0 MM2S0 0 = Inl UndefinedBehaviour
   \<and> createDMA splitState oneChainDma 0 MM2S1 0 = Inl UndefinedBehaviour
   \<and> createDMA (splitState\<lparr>fifoOps := (\<lambda>_. \<lparr>producerTile = 5, consumerTiles = [7],
         elemNumber = 0, elemType = [16]\<rparr>)\<rparr>) oneChainDma 0 MM2S1 0 = Inr oneChainDma
   \<and> createDMA (splitState\<lparr>fifoOps := (\<lambda>_. \<lparr>producerTile = 5, consumerTiles = [7],
         elemNumber = 15, elemType = [16]\<rparr>)\<rparr>) oneChainDma 0 MM2S1 0 = Inl TooManyBlocks"
  by code_simp

section \<open>Loop unrolling: properties\<close>

lemma patched_mono:
  "patched c1 base inc cl dep old new \<Longrightarrow> set c1 \<subseteq> set c2 \<Longrightarrow> patched c2 base inc cl dep old new"
  unfolding patched_def by (auto split: if_splits)

lemma patchOperand_ok:
  "patchOperand dep v clones base inc fresh = Inr (v', created, fresh') \<Longrightarrow>
     patched created base inc clones dep v v'"
  by (auto simp: patchOperand_def patched_def LOOP_VAR_DEPENDENCY_def split: if_splits)

lemma patchOperands_ok:
  "patchOperands deps vs clones base inc fresh = Inr (vs', created, fresh') \<Longrightarrow>
     length vs' = length vs \<and>
     (\<forall>k<length vs. patched created base inc clones (deps ! k) (vs ! k) (vs' ! k))"
proof (induction deps vs clones base inc fresh arbitrary: vs' created fresh'
       rule: patchOperands.induct)
  case (1 deps clones base inc fresh)
  then show ?case by simp
next
  case (2 operand rest clones base inc fresh)
  then show ?case by simp
next
  case (3 dep deps operand rest clones base inc fresh)
  from "3.prems" obtain v c1 f1 vs1 c2 where
    p1: "patchOperand dep operand clones base inc fresh = Inr (v, c1, f1)"
    and p2: "patchOperands deps rest clones base inc f1 = Inr (vs1, c2, fresh')"
    and eq: "vs' = v # vs1" "created = c1 @ c2"
    by (auto split: sum.splits prod.splits)
  from "3.IH" [OF p1 refl refl p2]
  have ih: "length vs1 = length rest"
    "\<forall>k<length rest. patched c2 base inc clones (deps ! k) (rest ! k) (vs1 ! k)" by auto
  have h0: "patched created base inc clones dep operand v"
    using patchOperand_ok [OF p1] eq by (auto intro: patched_mono)
  have hk: "\<forall>k<length rest. patched created base inc clones (deps ! k) (rest ! k) (vs1 ! k)"
    using ih(2) eq by (auto intro: patched_mono)
  show ?case
  proof (intro conjI allI impI)
    show "length vs' = length (operand # rest)" using ih(1) eq by simp
    fix k assume "k < length (operand # rest)"
    then show "patched created base inc clones ((dep # deps) ! k) ((operand # rest) ! k) (vs' ! k)"
      using h0 hk eq by (cases k) auto
  qed
qed

lemma patchOperands_succeeds:
  "length vs \<le> length deps \<Longrightarrow>
   (\<forall>k<length vs. 0 \<le> deps ! k \<longrightarrow> nat (deps ! k) < length clones) \<Longrightarrow>
   \<exists>r. patchOperands deps vs clones base inc fresh = Inr r"
proof (induction deps vs clones base inc fresh rule: patchOperands.induct)
  case (1 deps clones base inc fresh)
  then show ?case by simp
next
  case (2 operand rest clones base inc fresh)
  then show ?case by simp
next
  case (3 dep deps operand rest clones base inc fresh)
  from "3.prems"(2) have d: "0 \<le> dep \<longrightarrow> nat dep < length clones" by auto
  then have "\<exists>r. patchOperand dep operand clones base inc fresh = Inr r"
    by (auto simp: patchOperand_def)
  then obtain v c1 f1 where p1: "patchOperand dep operand clones base inc fresh = Inr (v, c1, f1)"
    by (metis prod_cases3)
  have "\<forall>k<length rest. 0 \<le> deps ! k \<longrightarrow> nat (deps ! k) < length clones"
    using "3.prems"(2) by auto
  moreover have "length rest \<le> length deps" using "3.prems"(1) by simp
  ultimately obtain r where "patchOperands deps rest clones base inc f1 = Inr r"
    using "3.IH" [OF p1 refl refl] by blast
  with p1 show ?case by (auto split: prod.splits)
qed


lemma cloneOp_ok:
  "cloneOp op deps clones base inc fresh = Inr ((created, clone), fresh') \<Longrightarrow>
     opName clone = opName op \<and> body clone = body op \<and>
     length (operands clone) = length (operands op) \<and>
     (\<forall>k<length (operands op).
        patched created base inc clones (deps ! k) (operands op ! k) (operands clone ! k))"
  by (auto simp: cloneOp_def split: sum.splits prod.splits dest!: patchOperands_ok)

lemma duplicateOps_ok:
  "duplicateOps ops deps done base inc fresh = Inr (copy, fresh') \<Longrightarrow>
     \<exists>new. copy = done @ new \<and> length new = length ops \<and>
       (\<forall>j<length ops.
          opName (snd (new ! j)) = opName (ops ! j) \<and>
          body (snd (new ! j)) = body (ops ! j) \<and>
          length (operands (snd (new ! j))) = length (operands (ops ! j)) \<and>
          (\<forall>k<length (operands (ops ! j)).
             patched (fst (new ! j)) base inc (map (opId \<circ> snd) (done @ take j new))
               (deps ! j ! k) (operands (ops ! j) ! k) (operands (snd (new ! j)) ! k)))"
proof (induction ops deps "done" base inc fresh arbitrary: copy fresh' rule: duplicateOps.induct)
  case (1 dependencies duplicated base inc fresh)
  then show ?case by simp
next
  case (2 op rest duplicated base inc fresh)
  then show ?case by simp
next
  case (3 op rest d ds duplicated base inc fresh)
  from "3.prems" obtain created clone f1 where
    c: "cloneOp op d (map (opId \<circ> snd) duplicated) base inc fresh = Inr ((created, clone), f1)"
    and r: "duplicateOps rest ds (duplicated @ [(created, clone)]) base inc f1 = Inr (copy, fresh')"
    by (auto split: sum.splits prod.splits)
  from "3.IH" [OF c refl r] obtain new' where
    n: "copy = (duplicated @ [(created, clone)]) @ new'" "length new' = length rest"
    and ih: "\<forall>j<length rest.
          opName (snd (new' ! j)) = opName (rest ! j) \<and>
          body (snd (new' ! j)) = body (rest ! j) \<and>
          length (operands (snd (new' ! j))) = length (operands (rest ! j)) \<and>
          (\<forall>k<length (operands (rest ! j)).
             patched (fst (new' ! j)) base inc
               (map (opId \<circ> snd) ((duplicated @ [(created, clone)]) @ take j new'))
               (ds ! j ! k) (operands (rest ! j) ! k) (operands (snd (new' ! j)) ! k))"
    by blast
  note c0 = cloneOp_ok [OF c]
  let ?new = "(created, clone) # new'"
  have "\<forall>j<length (op # rest).
          opName (snd (?new ! j)) = opName ((op # rest) ! j) \<and>
          body (snd (?new ! j)) = body ((op # rest) ! j) \<and>
          length (operands (snd (?new ! j))) = length (operands ((op # rest) ! j)) \<and>
          (\<forall>k<length (operands ((op # rest) ! j)).
             patched (fst (?new ! j)) base inc (map (opId \<circ> snd) (duplicated @ take j ?new))
               ((d # ds) ! j ! k) (operands ((op # rest) ! j) ! k) (operands (snd (?new ! j)) ! k))"
  proof (intro allI impI)
    fix j assume j: "j < length (op # rest)"
    show "opName (snd (?new ! j)) = opName ((op # rest) ! j) \<and>
          body (snd (?new ! j)) = body ((op # rest) ! j) \<and>
          length (operands (snd (?new ! j))) = length (operands ((op # rest) ! j)) \<and>
          (\<forall>k<length (operands ((op # rest) ! j)).
             patched (fst (?new ! j)) base inc (map (opId \<circ> snd) (duplicated @ take j ?new))
               ((d # ds) ! j ! k) (operands ((op # rest) ! j) ! k) (operands (snd (?new ! j)) ! k))"
    proof (cases j)
      case 0
      with c0 show ?thesis by simp
    next
      case (Suc j')
      with j have "j' < length rest" by simp
      with ih Suc show ?thesis by simp
    qed
  qed
  moreover have "copy = duplicated @ ?new" using n by simp
  moreover have "length ?new = length (op # rest)" using n by simp
  ultimately show ?case by blast
qed

lemma duplicateOps_isCopyOf:
  assumes "duplicateOps ops deps [] base inc fresh = Inr (copy, fresh')"
  shows "isCopyOf ops deps base inc copy"
  using duplicateOps_ok [OF assms] unfolding isCopyOf_def by auto

lemma cloneOp_succeeds:
  assumes "length (operands op) \<le> length deps"
    and "\<forall>k<length (operands op). 0 \<le> deps ! k \<longrightarrow> nat (deps ! k) < length clones"
  shows "\<exists>g f. cloneOp op deps clones base inc fresh = Inr (g, f)"
proof -
  from patchOperands_succeeds [OF assms, of base inc "Suc fresh"]
  obtain r where "patchOperands deps (operands op) clones base inc (Suc fresh) = Inr r" ..
  then show ?thesis by (cases r) (auto simp: cloneOp_def)
qed

lemma duplicateOps_succeeds:
  "length ops \<le> length deps \<Longrightarrow>
   (\<forall>j<length ops. length (operands (ops ! j)) \<le> length (deps ! j) \<and>
      (\<forall>k<length (operands (ops ! j)). 0 \<le> deps ! j ! k \<longrightarrow> nat (deps ! j ! k) < length done + j)) \<Longrightarrow>
   \<exists>copy f. duplicateOps ops deps done base inc fresh = Inr (copy, f)"
proof (induction ops deps "done" base inc fresh rule: duplicateOps.induct)
  case (1 dependencies duplicated base inc fresh)
  then show ?case by simp
next
  case (2 op rest duplicated base inc fresh)
  then show ?case by simp
next
  case (3 op rest d ds duplicated base inc fresh)
  from "3.prems"(2) have h0: "length (operands op) \<le> length d"
    "\<forall>k<length (operands op). 0 \<le> d ! k \<longrightarrow> nat (d ! k) < length (map (opId \<circ> snd) duplicated)"
    by auto
  from cloneOp_succeeds [OF h0, of base inc fresh] obtain g f1 where
    c: "cloneOp op d (map (opId \<circ> snd) duplicated) base inc fresh = Inr (g, f1)" by blast
  have l: "length rest \<le> length ds" using "3.prems"(1) by simp
  have w: "\<forall>j<length rest. length (operands (rest ! j)) \<le> length (ds ! j) \<and>
      (\<forall>k<length (operands (rest ! j)). 0 \<le> ds ! j ! k \<longrightarrow>
          nat (ds ! j ! k) < length (duplicated @ [g]) + j)"
  proof (intro allI impI)
    fix j assume "j < length rest"
    then have "Suc j < length (op # rest)" by simp
    with "3.prems"(2) show "length (operands (rest ! j)) \<le> length (ds ! j) \<and>
      (\<forall>k<length (operands (rest ! j)). 0 \<le> ds ! j ! k \<longrightarrow>
          nat (ds ! j ! k) < length (duplicated @ [g]) + j)"
      by fastforce
  qed
  from "3.IH" [OF c refl l w] c show ?case by auto
qed

lemma duplicateBlock_from_ok:
  "duplicateBlock_from i n ops deps base step inLoop fresh = Inr (copies, fresh') \<Longrightarrow>
     length copies = n \<and>
     (\<forall>r<n. isCopyOf ops deps base
               (if inLoop then (int (i + r) + 1) * step else int (i + r) * step) (copies ! r))"
proof (induction n arbitrary: i fresh copies fresh')
  case 0
  then show ?case by simp
next
  case (Suc n)
  let ?inc = "if inLoop then (int i + 1) * step else int i * step"
  from Suc.prems obtain copy f1 rest where
    d: "duplicateOps ops deps [] base ?inc fresh = Inr (copy, f1)"
    and r: "duplicateBlock_from (Suc i) n ops deps base step inLoop f1 = Inr (rest, fresh')"
    and eq: "copies = copy # rest"
    by (auto simp: Let_def split: sum.splits prod.splits)
  from Suc.IH [OF r] have ih: "length rest = n"
    "\<forall>r<n. isCopyOf ops deps base
               (if inLoop then (int (Suc i + r) + 1) * step else int (Suc i + r) * step) (rest ! r)"
    by auto
  have c0: "isCopyOf ops deps base ?inc copy" by (rule duplicateOps_isCopyOf [OF d])
  show ?case
  proof (intro conjI allI impI)
    show "length copies = Suc n" using ih(1) eq by simp
    fix r assume "r < Suc n"
    then show "isCopyOf ops deps base
               (if inLoop then (int (i + r) + 1) * step else int (i + r) * step) (copies ! r)"
      using c0 ih(2) eq by (cases r) auto
  qed
qed

lemma duplicateBlock_from_succeeds:
  assumes "length ops \<le> length deps"
    and "\<forall>j<length ops. length (operands (ops ! j)) \<le> length (deps ! j) \<and>
      (\<forall>k<length (operands (ops ! j)). 0 \<le> deps ! j ! k \<longrightarrow> nat (deps ! j ! k) < j)"
  shows "\<exists>copies f. duplicateBlock_from i n ops deps base step inLoop fresh = Inr (copies, f)"
proof (induction n arbitrary: i fresh)
  case 0
  then show ?case by simp
next
  case (Suc n)
  let ?inc = "if inLoop then (int i + 1) * step else int i * step"
  from duplicateOps_succeeds [of ops deps "[]" base ?inc fresh] assms
  obtain copy f1 where d: "duplicateOps ops deps [] base ?inc fresh = Inr (copy, f1)"
    by auto
  from Suc [of "Suc i" f1] obtain rest f2 where
    "duplicateBlock_from (Suc i) n ops deps base step inLoop f1 = Inr (rest, f2)" by blast
  with d show ?case by (simp add: Let_def)
qed


lemma mapE_ok:
  "(\<forall>v\<in>set vs. \<exists>d. f v = Inr d \<and> R v d) \<Longrightarrow>
     \<exists>ds. mapE f vs = Inr ds \<and> length ds = length vs \<and> (\<forall>k<length vs. R (vs ! k) (ds ! k))"
proof (induction vs)
  case Nil
  then show ?case by simp
next
  case (Cons v vs)
  then obtain d ds where d: "f v = Inr d" "R v d"
    and ds: "mapE f vs = Inr ds" "length ds = length vs" "\<forall>k<length vs. R (vs ! k) (ds ! k)"
    by auto
  have "\<forall>k<length (v # vs). R ((v # vs) ! k) ((d # ds) ! k)"
    using d(2) ds(3) by (auto simp: nth_Cons split: nat.splits)
  with d ds show ?case by (intro exI [of _ "d # ds"]) simp
qed

lemma operandDependency_ok:
  assumes wf: "definedBeforeUse loop ids ops"
    and j: "j < length ops"
    and v: "v \<in> set (operands (ops ! j))"
    and inv: "\<forall>i\<le>j. opIndex (opId (ops ! i)) = Some (int i)"
  shows "\<exists>d. operandDependency loop ids opIndex v = Inr d \<and> dependsOn loop ids ops j v d"
proof (cases "v = BlockArg loop 0")
  case True
  then show ?thesis by (simp add: operandDependency_def dependsOn_def)
next
  case False
  from wf j v False obtain d where d: "getDefiningOp v = Some d"
    and before: "d \<in> set ids \<longrightarrow> d \<in> set (map opId (take j ops))"
    unfolding definedBeforeUse_def by (fastforce split: option.splits)
  show ?thesis
  proof (cases "d \<in> set ids")
    case True
    with before have "d \<in> set (map opId (take j ops))" by simp
    then obtain i where i: "i < j" "opId (ops ! i) = d"
      using j by (auto simp: in_set_conv_nth)
    with inv have "opIndex d = Some (int i)" by auto
    with False d True i show ?thesis
      by (auto simp: operandDependency_def dependsOn_def)
  next
    case False
    with \<open>v \<noteq> BlockArg loop 0\<close> d show ?thesis
      by (simp add: operandDependency_def dependsOn_def)
  qed
qed

lemma identifyDependencies_gen:
  assumes wf: "definedBeforeUse loop ids ops"
  shows "ops = pre @ rest \<Longrightarrow> (\<forall>i<length pre. opIndex (opId (ops ! i)) = Some (int i)) \<Longrightarrow>
     \<exists>new. identifyDependencies loop ids rest (int (length pre)) opIndex acc = Inr (acc @ new) \<and>
       length new = length rest \<and>
       (\<forall>j<length rest. length (new ! j) = length (operands (rest ! j)) \<and>
          (\<forall>k<length (operands (rest ! j)).
             dependsOn loop ids ops (length pre + j) (operands (rest ! j) ! k) (new ! j ! k)))"
proof (induction rest arbitrary: pre opIndex acc)
  case Nil
  then show ?case by simp
next
  case (Cons op rest)
  let ?j = "length pre"
  let ?oi = "opIndex(opId op \<mapsto> int ?j)"
  have opj: "ops ! ?j = op" and j: "?j < length ops" using Cons.prems(1) by simp_all
  have dist: "distinct (map opId ops)" using wf by (simp add: definedBeforeUse_def)
  have inv': "\<forall>i\<le>?j. ?oi (opId (ops ! i)) = Some (int i)"
  proof (intro allI impI)
    fix i assume i: "i \<le> ?j"
    show "?oi (opId (ops ! i)) = Some (int i)"
    proof (cases "i = ?j")
      case True
      with opj show ?thesis by simp
    next
      case False
      with i have lt: "i < ?j" by simp
      have "opId (ops ! i) \<noteq> opId (ops ! ?j)"
        using dist lt j by (simp add: distinct_conv_nth less_trans)
      with lt Cons.prems(2) opj show ?thesis by simp
    qed
  qed
  have "\<forall>v\<in>set (operands op). \<exists>d. operandDependency loop ids ?oi v = Inr d \<and>
            dependsOn loop ids ops ?j v d"
    using operandDependency_ok [OF wf j _ inv'] opj by blast
  from mapE_ok [OF this] obtain ds where
    ds: "mapE (operandDependency loop ids ?oi) (operands op) = Inr ds"
      "length ds = length (operands op)"
      "\<forall>k<length (operands op). dependsOn loop ids ops ?j (operands op ! k) (ds ! k)"
    by blast
  have p1: "ops = (pre @ [op]) @ rest" using Cons.prems(1) by simp
  have p2: "\<forall>i<length (pre @ [op]). ?oi (opId (ops ! i)) = Some (int i)"
    using inv' by simp
  from Cons.IH [OF p1 p2, of "acc @ [ds]"] obtain new where
    n: "identifyDependencies loop ids rest (int (length (pre @ [op]))) ?oi (acc @ [ds]) =
          Inr ((acc @ [ds]) @ new)"
      "length new = length rest"
      "\<forall>j<length rest. length (new ! j) = length (operands (rest ! j)) \<and>
          (\<forall>k<length (operands (rest ! j)).
             dependsOn loop ids ops (length (pre @ [op]) + j) (operands (rest ! j) ! k) (new ! j ! k))"
    by blast
  have step: "identifyDependencies loop ids (op # rest) (int ?j) opIndex acc = Inr (acc @ ds # new)"
    using ds(1) n(1) by (simp add: Let_def add.commute)
  have "\<forall>j<length (op # rest). length ((ds # new) ! j) = length (operands ((op # rest) ! j)) \<and>
          (\<forall>k<length (operands ((op # rest) ! j)).
             dependsOn loop ids ops (?j + j) (operands ((op # rest) ! j) ! k) ((ds # new) ! j ! k))"
  proof (intro allI impI)
    fix j assume j: "j < length (op # rest)"
    show "length ((ds # new) ! j) = length (operands ((op # rest) ! j)) \<and>
          (\<forall>k<length (operands ((op # rest) ! j)).
             dependsOn loop ids ops (?j + j) (operands ((op # rest) ! j) ! k) ((ds # new) ! j ! k))"
    proof (cases j)
      case 0
      with ds show ?thesis by simp
    next
      case (Suc j')
      with j have "j' < length rest" by simp
      with n(3) Suc show ?thesis by simp
    qed
  qed
  with step n(2) show ?case by (intro exI [of _ "ds # new"]) simp
qed

lemma identifyDependencies_ok:
  assumes "definedBeforeUse loop ids ops"
  shows "\<exists>deps. identifyDependencies loop ids ops 0 Map.empty [] = Inr deps \<and>
       length deps = length ops \<and>
       (\<forall>j<length ops. length (deps ! j) = length (operands (ops ! j)) \<and>
          (\<forall>k<length (operands (ops ! j)).
             dependsOn loop ids ops j (operands (ops ! j) ! k) (deps ! j ! k)))"
  using identifyDependencies_gen [OF assms, of "[]" ops Map.empty "[]"] by simp

lemma dependsOn_bound:
  "dependsOn loop ids ops j v dep \<Longrightarrow> 0 \<le> dep \<Longrightarrow> nat dep < j"
  by (auto simp: dependsOn_def LOOP_VAR_DEPENDENCY_def split: if_splits option.splits)

lemma cdiv_pos: "0 \<le> a \<Longrightarrow> 0 < b \<Longrightarrow> cdiv a b = a div b"
  by (cases "a = 0") (simp_all add: cdiv_def)

lemma crem_pos: "0 \<le> a \<Longrightarrow> 0 < b \<Longrightarrow> crem a b = a mod b"
  by (cases "a = 0") (simp_all add: crem_def)

lemma lcm_step: "0 < i \<Longrightarrow> 0 < l \<Longrightarrow> cdiv (i * l) (gcd i l) = lcm i (l :: int)"
proof -
  assume i: "0 < i" and l: "0 < l"
  then have g: "0 < gcd i l" by (simp add: gcd_pos_int)
  have "cdiv (i * l) (gcd i l) = (i * l) div gcd i l"
    using i l g by (intro cdiv_pos) simp_all
  also have "\<dots> = lcm i l"
    using i l by (simp add: lcm_gcd abs_mult pos_imp_zdiv_nonneg_iff g)
  finally show ?thesis .
qed

lemma computeLCM_foldl:
  "0 < l \<Longrightarrow> \<forall>d\<in>set values. 0 < d \<Longrightarrow>
     foldl (\<lambda>lcm i. cdiv (i * lcm) (gcd i lcm)) l values = Lcm (set (l # values)) \<and>
     0 < foldl (\<lambda>lcm i. cdiv (i * lcm) (gcd i lcm)) l values"
proof (induction "values" arbitrary: l)
  case Nil
  then show ?case by simp
next
  case (Cons i vs)
  have s: "cdiv (i * l) (gcd i l) = lcm i l" using Cons.prems by (intro lcm_step) simp_all
  have p: "0 < lcm i l" using Cons.prems by (simp add: lcm_pos_int)
  from Cons.IH [OF p] Cons.prems(2)
  have "foldl (\<lambda>lcm i. cdiv (i * lcm) (gcd i lcm)) (lcm i l) vs = Lcm (set (lcm i l # vs))"
    "0 < foldl (\<lambda>lcm i. cdiv (i * lcm) (gcd i lcm)) (lcm i l) vs" by simp_all
  moreover have "Lcm (set (lcm i l # vs)) = Lcm (set (l # i # vs))"
    by (simp add: ac_simps)
  ultimately show ?case using s by simp
qed

lemma computeLCM_Lcm:
  assumes "\<forall>d\<in>set values. 0 < d"
  shows "computeLCM values = Lcm (set values)" "0 < computeLCM values"
  using computeLCM_foldl [OF _ assms, of 1] by (simp_all add: computeLCM_def)


lemma collectSizes_ok:
  "(\<forall>a\<in>set acqs. fifoOf a \<noteq> None) \<Longrightarrow>
     \<exists>sizes. collectSizes st acqs acc = Inr sizes \<and>
       set sizes = set acc \<union> (\<lambda>a. size_fifo (fifoOps st (the (fifoOf a)))) ` set acqs"
proof (induction acqs arbitrary: acc)
  case Nil
  then show ?case by simp
next
  case (Cons a acqs)
  then obtain f where f: "fifoOf a = Some f" by auto
  from Cons.IH [of "insort_insert (size_fifo (fifoOps st f)) acc"] Cons.prems
  obtain sizes where "collectSizes st acqs (insort_insert (size_fifo (fifoOps st f)) acc) = Inr sizes"
    "set sizes = set (insort_insert (size_fifo (fifoOps st f)) acc) \<union>
       (\<lambda>a. size_fifo (fifoOps st (the (fifoOf a)))) ` set acqs" by auto
  with f show ?case by (auto simp: set_insort_insert)
qed

lemma unroll_structure:
  fixes st :: PassState and tile :: tile and forLoop :: operation and l u s :: int
    and fresh :: nat and ub :: val
  defines "body1 \<equiv> map (substituteAcquire st tile) (body forLoop)"
  defines "ops \<equiv> butlast body1"
  defines "uf \<equiv> Lcm ((\<lambda>a. size_fifo (fifoOps st (the (fifoOf a)))) ` set (filter isAcquire body1))"
  defines "remainder \<equiv> ((u - l) mod (uf * s)) div s"
  defines "newUpper \<equiv> ((u - l) div (uf * s)) * (uf * s)"
  defines "ub' \<equiv> (if remainder \<noteq> 0 then OpResult fresh 0 else ub)"
  defines "stepId \<equiv> (if remainder \<noteq> 0 then Suc fresh else fresh)"
  assumes found: "filter isAcquire body1 \<noteq> []"
    and fifos: "\<forall>a\<in>set (filter isAcquire body1).
                  fifoOf a \<noteq> None \<and> 0 < size_fifo (fifoOps st (the (fifoOf a)))"
    and bounds: "operands forLoop = lb # ub # sv # others"
    and cvals: "constOf lb = Some l" "constOf ub = Some u" "constOf sv = Some s"
    and range: "0 < s" "l \<le> u"
    and wf: "definedBeforeUse (opId forLoop) (map opId body1) ops"
  shows "\<exists>deps inner post fresh'.
      unrollForLoop st tile constOf forLoop fresh =
        Inr ((if (u - l) div s \<le> uf then []
              else (if remainder \<noteq> 0 then [Operation fresh (ConstantOp newUpper) [] []] else []) @
                   [Operation stepId (ConstantOp (uf * s)) [] []] @
                   [Operation (opId forLoop) ForOp (lb # ub' # OpResult stepId 0 # others)
                      (ops @ inserted inner @ [last body1])]) @
             inserted post, fresh')
      \<and> length inner = (if (u - l) div s \<le> uf then 0 else nat (uf - 1))
      \<and> length post = (if (u - l) div s \<le> uf then nat ((u - l) div s) else nat remainder)
      \<and> (\<forall>i<length inner.
            isCopyOf ops deps (BlockArg (opId forLoop) 0) ((int i + 1) * s) (inner ! i))
      \<and> (\<forall>i<length post.
            isCopyOf ops deps (if (u - l) div s \<le> uf then lb else ub') (int i * s) (post ! i))
      \<and> length deps = length ops
      \<and> (\<forall>j<length ops. \<forall>k<length (operands (ops ! j)).
            dependsOn (opId forLoop) (map opId body1) ops j (operands (ops ! j) ! k) (deps ! j ! k))
      \<and> 0 < uf \<and> 0 \<le> remainder
      \<and> (uf * s) dvd newUpper \<and> newUpper \<le> u - l \<and> u - l < newUpper + uf * s"
proof -
  let ?acqs = "filter isAcquire body1"
  from fifos have "\<forall>a\<in>set ?acqs. fifoOf a \<noteq> None" by blast
  from collectSizes_ok [OF this, of st "[]"] obtain depths where
    cs: "collectSizes st ?acqs [] = Inr depths"
    and sd: "set depths = (\<lambda>a. size_fifo (fifoOps st (the (fifoOf a)))) ` set ?acqs"
    by auto
  have pd: "\<forall>d\<in>set depths. 0 < d" using fifos sd by auto
  have lc: "computeLCM depths = uf" "0 < uf"
    using computeLCM_Lcm [OF pd] sd by (simp_all add: uf_def)
  have ns: "0 < uf * s" using lc(2) range(1) by simp
  have lbnd: "loopBounds constOf forLoop = Inr (lb, ub, others, u, l, s)"
    using bounds cvals by (simp add: loopBounds_def)
  have ni: "cdiv (u - l) s = (u - l) div s" using range by (intro cdiv_pos) simp_all
  from identifyDependencies_ok [OF wf] obtain deps where
    id: "identifyDependencies (opId forLoop) (map opId body1) ops 0 Map.empty [] = Inr deps"
    and ld: "length deps = length ops"
    and dd: "\<forall>j<length ops. length (deps ! j) = length (operands (ops ! j)) \<and>
          (\<forall>k<length (operands (ops ! j)).
             dependsOn (opId forLoop) (map opId body1) ops j (operands (ops ! j) ! k) (deps ! j ! k))"
    by blast
  have wd1: "length ops \<le> length deps" using ld by simp
  have wd2: "\<forall>j<length ops. length (operands (ops ! j)) \<le> length (deps ! j) \<and>
      (\<forall>k<length (operands (ops ! j)). 0 \<le> deps ! j ! k \<longrightarrow> nat (deps ! j ! k) < j)"
    using dd by (auto dest: dependsOn_bound)
  have rm: "cdiv (crem (u - l) (uf * s)) s = remainder"
  proof -
    have "crem (u - l) (uf * s) = (u - l) mod (uf * s)" using range ns by (intro crem_pos) simp_all
    moreover have "0 \<le> (u - l) mod (uf * s)" using ns by simp
    ultimately show ?thesis using range(1) by (simp add: cdiv_pos remainder_def)
  qed
  have r0: "0 \<le> remainder"
    unfolding remainder_def using ns range(1) by (simp add: pos_imp_zdiv_nonneg_iff)
  have nu: "cdiv (u - l) (uf * s) * (uf * s) = newUpper"
    using range ns by (simp add: cdiv_pos newUpper_def)
  have dd': "\<forall>j<length ops. \<forall>k<length (operands (ops ! j)).
            dependsOn (opId forLoop) (map opId body1) ops j (operands (ops ! j) ! k) (deps ! j ! k)"
    using dd by blast
  have un0: "unrollForLoop st tile constOf forLoop fresh =
        (if (u - l) div s \<le> uf then fullUnroll ((u - l) div s) ops deps lb s fresh
         else partialUnroll (opId forLoop) lb ub others (last body1) ops deps uf u l s fresh)"
    using found cs lc(1) lbnd range(1) id ni
    unfolding unrollForLoop_def body1_def [symmetric] ops_def [symmetric] Let_def
    by simp
  have dvd: "(uf * s) dvd newUpper" by (simp add: newUpper_def)
  have le: "newUpper \<le> u - l" "u - l < newUpper + uf * s"
  proof -
    have e: "u - l = newUpper + (u - l) mod (uf * s)"
      unfolding newUpper_def by (metis div_mult_mod_eq)
    have "0 \<le> (u - l) mod (uf * s)" "(u - l) mod (uf * s) < uf * s" using ns by simp_all
    with e show "newUpper \<le> u - l" "u - l < newUpper + uf * s" by linarith+
  qed
  show ?thesis
  proof (cases "(u - l) div s \<le> uf")
    case True
    from duplicateBlock_from_succeeds [OF wd1 wd2, of 0 "nat ((u - l) div s)" lb s False fresh]
    obtain post f3 where
      d2: "duplicateBlock ((u - l) div s) ops deps lb s False fresh = Inr (post, f3)"
      unfolding duplicateBlock_def by blast
    note k2 = duplicateBlock_from_ok [OF d2 [unfolded duplicateBlock_def]]
    have un: "unrollForLoop st tile constOf forLoop fresh = Inr (inserted post, f3)"
      using un0 True d2 by (simp add: fullUnroll_def)
    have c2: "\<forall>i<length post. isCopyOf ops deps lb (int i * s) (post ! i)"
      using k2 by simp
    from un k2 c2 ld dd' lc(2) r0 dvd le True show ?thesis
      by (intro exI [of _ deps] exI [of _ "[]"] exI [of _ post] exI [of _ f3]) simp
  next
    case False
    from duplicateBlock_from_succeeds [OF wd1 wd2, of 0 "nat (uf - 1)" "BlockArg (opId forLoop) 0" s True "Suc stepId"]
    obtain inner f2 where
      d1: "duplicateBlock (uf - 1) ops deps (BlockArg (opId forLoop) 0) s True (Suc stepId) = Inr (inner, f2)"
      unfolding duplicateBlock_def by blast
    from duplicateBlock_from_succeeds [OF wd1 wd2, of 0 "nat remainder" ub' s False f2]
    obtain post f3 where
      d2: "duplicateBlock remainder ops deps ub' s False f2 = Inr (post, f3)"
      unfolding duplicateBlock_def by blast
    note k1 = duplicateBlock_from_ok [OF d1 [unfolded duplicateBlock_def]]
    note k2 = duplicateBlock_from_ok [OF d2 [unfolded duplicateBlock_def]]
    have pu: "partialUnroll (opId forLoop) lb ub others (last body1) ops deps uf u l s fresh =
          Inr ((if remainder \<noteq> 0 then [Operation fresh (ConstantOp newUpper) [] []] else []) @
               [Operation stepId (ConstantOp (uf * s)) [] []] @
               [Operation (opId forLoop) ForOp (lb # ub' # OpResult stepId 0 # others)
                  (ops @ inserted inner @ [last body1])] @
               inserted post, f3)"
      using ns r0 d1 d2 unfolding partialUnroll_def Let_def rm nu ub'_def stepId_def
      by (auto simp: less_le)
    have un: "unrollForLoop st tile constOf forLoop fresh =
          partialUnroll (opId forLoop) lb ub others (last body1) ops deps uf u l s fresh"
      using un0 False by simp
    have c1: "\<forall>i<length inner.
              isCopyOf ops deps (BlockArg (opId forLoop) 0) ((int i + 1) * s) (inner ! i)"
      using k1 by simp
    have c2: "\<forall>i<length post. isCopyOf ops deps ub' (int i * s) (post ! i)"
      using k2 by simp
    from un pu k1 k2 c1 c2 ld dd' lc(2) r0 dvd le False show ?thesis
      by (intro exI [of _ deps] exI [of _ inner] exI [of _ post] exI [of _ f3]) simp
  qed
qed

text \<open>
  C5. For a loop whose trip count is greater than the unroll factor the claim has the upper
  bound shrunk to the largest multiple of the new step when the remainder is not zero. On
  the loop over [10, 17) with step 1 around an acquire of the queue of depth 3 (trip count
  7, unroll factor 3, new step 3, remainder 1) the code sets the upper bound to the new
  constant \<open>((17 - 10) / 3) * 3 = 6\<close>, to which the lower bound is not added back: the loop
  now runs from 10 up to 6, which is no iteration at all, and the one remainder copy after
  it uses the index \<open>6 + 0\<close>. With the bound 16, which is the lower bound plus 6, the loop
  would run for 10 and 13 and the copy for 16. The step, the two duplications in the body
  with the offsets 1 and 2, and the number of remainder copies are as the claim says.
\<close>

theorem unrollForLoop_upper_bound_drops_lower_bound:
  "exampleConsts 10 17 1 (OpResult 20 0) = Some 10
   \<and> unrollForLoop depth3State 5 (exampleConsts 10 17 1) exampleLoop 100 =
     Inr ([Operation 100 (ConstantOp 6) [] [],
           Operation 101 (ConstantOp 3) [] [],
           Operation 30 ForOp [OpResult 20 0, OpResult 100 0, OpResult 101 0]
            [Operation 31 (ObjectFifoAcquireOp Produce 1) [OpResult 0 0] [],
             Operation 32 (OtherOp ''use'') [OpResult 31 0, BlockArg 30 0] [],
             Operation 33 (ObjectFifoReleaseOp Produce 1) [OpResult 0 0] [],
             Operation 102 (ObjectFifoAcquireOp Produce 1) [OpResult 0 0] [],
             Operation 104 (ConstantOp 1) [] [],
             Operation 105 AddIOp [BlockArg 30 0, OpResult 104 0] [],
             Operation 103 (OtherOp ''use'') [OpResult 102 0, OpResult 105 0] [],
             Operation 106 (ObjectFifoReleaseOp Produce 1) [OpResult 0 0] [],
             Operation 107 (ObjectFifoAcquireOp Produce 1) [OpResult 0 0] [],
             Operation 109 (ConstantOp 2) [] [],
             Operation 110 AddIOp [BlockArg 30 0, OpResult 109 0] [],
             Operation 108 (OtherOp ''use'') [OpResult 107 0, OpResult 110 0] [],
             Operation 111 (ObjectFifoReleaseOp Produce 1) [OpResult 0 0] [],
             Operation 34 (OtherOp ''scf.yield'') [] []],
           Operation 112 (ObjectFifoAcquireOp Produce 1) [OpResult 0 0] [],
           Operation 114 (ConstantOp 0) [] [],
           Operation 115 AddIOp [OpResult 100 0, OpResult 114 0] [],
           Operation 113 (OtherOp ''use'') [OpResult 112 0, OpResult 115 0] [],
           Operation 116 (ObjectFifoReleaseOp Produce 1) [OpResult 0 0] []],
          117)"
  by code_simp

text \<open>
  With a lower bound below 0 the same constant raises the upper bound: the loop over
  [-5, 2) gets the upper bound 6.
\<close>

lemma unrollForLoop_negative_lower_bound:
  "(case unrollForLoop depth3State 5 (exampleConsts (- 5) 2 1) exampleLoop 100 of
      Inl e \<Rightarrow> False
    | Inr (placed, fresh') \<Rightarrow>
        take 2 placed = [Operation 100 (ConstantOp 6) [] [], Operation 101 (ConstantOp 3) [] []] \<and>
        opId (placed ! 2) = 30 \<and>
        operands (placed ! 2) = [OpResult 20 0, OpResult 100 0, OpResult 101 0])"
  by code_simp

text \<open>
  An operand of the body that is a block argument other than the induction variable of the
  loop itself, such as the induction variable of an enclosing loop (operation 29), has no
  defining operation: \<^verbatim>\<open>identifyDependencies\<close> calls \<^verbatim>\<open>getBlock()\<close> on null.
\<close>

lemma unrollForLoop_outer_induction_variable:
  "unrollForLoop depth3State 5 (exampleConsts 0 6 1)
     (Operation 30 ForOp [OpResult 20 0, OpResult 21 0, OpResult 22 0]
       [Operation 31 (ObjectFifoAcquireOp Produce 1) [OpResult 0 0] [],
        Operation 32 (OtherOp ''use'') [OpResult 31 0, BlockArg 29 0] [],
        Operation 33 (ObjectFifoReleaseOp Produce 1) [OpResult 0 0] [],
        Operation 34 (OtherOp ''scf.yield'') [] []]) 100 = Inl UndefinedBehaviour"
  by code_simp

text \<open>
  The example of the claim: the loop over [0, 6) with step 1 around a queue of depth 3 gets
  the step 3, two duplications inside with the induction variable plus 1 and plus 2, and
  nothing after it; with the induction values 0 and 3 of the new loop the body sees 0, 1, 2
  and then 3, 4, 5.
\<close>

lemma unrollForLoop_example:
  "unrollForLoop depth3State 5 (exampleConsts 0 6 1) exampleLoop 100 =
     Inr ([Operation 100 (ConstantOp 3) [] [],
           Operation 30 ForOp [OpResult 20 0, OpResult 21 0, OpResult 100 0]
            [Operation 31 (ObjectFifoAcquireOp Produce 1) [OpResult 0 0] [],
             Operation 32 (OtherOp ''use'') [OpResult 31 0, BlockArg 30 0] [],
             Operation 33 (ObjectFifoReleaseOp Produce 1) [OpResult 0 0] [],
             Operation 101 (ObjectFifoAcquireOp Produce 1) [OpResult 0 0] [],
             Operation 103 (ConstantOp 1) [] [],
             Operation 104 AddIOp [BlockArg 30 0, OpResult 103 0] [],
             Operation 102 (OtherOp ''use'') [OpResult 101 0, OpResult 104 0] [],
             Operation 105 (ObjectFifoReleaseOp Produce 1) [OpResult 0 0] [],
             Operation 106 (ObjectFifoAcquireOp Produce 1) [OpResult 0 0] [],
             Operation 108 (ConstantOp 2) [] [],
             Operation 109 AddIOp [BlockArg 30 0, OpResult 108 0] [],
             Operation 107 (OtherOp ''use'') [OpResult 106 0, OpResult 109 0] [],
             Operation 110 (ObjectFifoReleaseOp Produce 1) [OpResult 0 0] [],
             Operation 34 (OtherOp ''scf.yield'') [] []]],
          111)"
  by code_simp

lemma substituteAcquire_release: "isRelease op \<Longrightarrow> substituteAcquire st tile op = op"
  by (auto simp: substituteAcquire_def isRelease_def isAcquire_def split: opname.splits)

lemma substituteAcquire_child:
  assumes "isAcquire op" "portOf op = Some Consume" "operands op = OpResult f 0 # vs"
    and "splitFifos st f = Some children" "f \<notin> set children"
    and "\<exists>c\<in>set children. producerTile (fifoOps st c) = tile"
  shows "\<exists>c\<in>set children. producerTile (fifoOps st c) = tile \<and>
           operands (substituteAcquire st tile op) =
             OpResult c 0 # map (\<lambda>v. if v = OpResult f 0 then OpResult c 0 else v) vs \<and>
           OpResult f 0 \<notin> set (operands (substituteAcquire st tile op))"
proof -
  let ?P = "\<lambda>c. producerTile (fifoOps st c) = tile"
  from filter_first [OF assms(6)] obtain i r where i: "i < length children" "?P (children ! i)"
    "filter ?P children = children ! i # r" by blast
  let ?c = "children ! i"
  have cin: "?c \<in> set children" using i(1) by simp
  then have ne: "?c \<noteq> f" using assms(5) by auto
  have fo: "fifoOf op = Some f" using assms(3) by (simp add: fifoOf_def)
  have "checkSplitFifo st op tile = Inr (replaceUsesOfWith op (OpResult f 0) (OpResult ?c 0))"
    unfolding checkSplitFifo_def using assms(2,4) fo checkSplit_fold [OF assms(5), of ?P op] i(3)
    by simp
  then have sa: "substituteAcquire st tile op = replaceUsesOfWith op (OpResult f 0) (OpResult ?c 0)"
    using assms(1) by (simp add: substituteAcquire_def)
  have "operands (substituteAcquire st tile op) =
          OpResult ?c 0 # map (\<lambda>v. if v = OpResult f 0 then OpResult ?c 0 else v) vs"
    unfolding sa using assms(3) by (simp add: replaceUsesOfWith_def)
  moreover have "OpResult f 0 \<notin> set (operands (substituteAcquire st tile op))"
    unfolding sa by (rule replaceUsesOfWith_gone) (use ne in simp)
  ultimately show ?thesis using cin i(2) by blast
qed

lemma isCopyOf_keeps_outer_operand:
  assumes c: "isCopyOf ops deps base inc copy"
    and j: "j < length ops"
    and o: "operands (ops ! j) = OpResult q 0 # vs"
    and d: "dependsOn loop ids ops j (operands (ops ! j) ! 0) (deps ! j ! 0)"
    and q: "q \<notin> set ids"
  shows "opName (snd (copy ! j)) = opName (ops ! j) \<and> hd (operands (snd (copy ! j))) = OpResult q 0"
proof -
  have dep: "deps ! j ! 0 = - 1"
    using d o q by (simp add: dependsOn_def)
  from c j have n: "opName (snd (copy ! j)) = opName (ops ! j)"
    and l: "length (operands (snd (copy ! j))) = length (operands (ops ! j))"
    and p: "\<forall>k<length (operands (ops ! j)).
              patched (fst (copy ! j)) base inc (map (opId \<circ> snd) (take j copy))
                (deps ! j ! k) (operands (ops ! j) ! k) (operands (snd (copy ! j)) ! k)"
    unfolding isCopyOf_def by blast+
  have k0: "0 < length (operands (ops ! j))" using o by simp
  from p [rule_format, OF k0]
  have "patched (fst (copy ! j)) base inc (map (opId \<circ> snd) (take j copy))
                (deps ! j ! 0) (operands (ops ! j) ! 0) (operands (snd (copy ! j)) ! 0)" .
  with dep o have "operands (snd (copy ! j)) ! 0 = OpResult q 0"
    by (simp add: patched_def LOOP_VAR_DEPENDENCY_def)
  moreover from l o have "operands (snd (copy ! j)) \<noteq> []" by auto
  ultimately show ?thesis using n by (simp add: hd_conv_nth)
qed

text \<open>
  C9 (as amended). Before the body of a loop is cloned, every acquire standing in the body
  that names, with the consume port, the parent of a split queue with a child on the tile
  of the kernel is rewritten to name that child and no longer names the parent; a release
  is left as it is. The operations cloned are the operations of the body after this
  rewriting, and every clone, inside the loop or after it, has the name of its original
  and names the queue that its original then names.
\<close>

theorem unrollForLoop_substitutes_acquires:
  fixes st :: PassState and tile :: tile and forLoop :: operation and l u s :: int
    and fresh :: nat and ub :: val
  defines "body1 \<equiv> map (substituteAcquire st tile) (body forLoop)"
  defines "ops \<equiv> butlast body1"
  defines "uf \<equiv> Lcm ((\<lambda>a. size_fifo (fifoOps st (the (fifoOf a)))) ` set (filter isAcquire body1))"
  assumes found: "filter isAcquire body1 \<noteq> []"
    and fifos: "\<forall>a\<in>set (filter isAcquire body1).
                  fifoOf a \<noteq> None \<and> 0 < size_fifo (fifoOps st (the (fifoOf a)))"
    and bounds: "operands forLoop = lb # ub # sv # others"
    and cvals: "constOf lb = Some l" "constOf ub = Some u" "constOf sv = Some s"
    and range: "0 < s" "l \<le> u"
    and wf: "definedBeforeUse (opId forLoop) (map opId body1) ops"
  shows "(\<forall>op\<in>set (body forLoop). isRelease op \<longrightarrow> substituteAcquire st tile op = op)
    \<and> (\<forall>op\<in>set (body forLoop). \<forall>f children vs.
          isAcquire op \<and> portOf op = Some Consume \<and> operands op = OpResult f 0 # vs \<and>
          splitFifos st f = Some children \<and> f \<notin> set children \<and>
          (\<exists>c\<in>set children. producerTile (fifoOps st c) = tile) \<longrightarrow>
          (\<exists>c\<in>set children. producerTile (fifoOps st c) = tile \<and>
             operands (substituteAcquire st tile op) =
               OpResult c 0 # map (\<lambda>v. if v = OpResult f 0 then OpResult c 0 else v) vs \<and>
             OpResult f 0 \<notin> set (operands (substituteAcquire st tile op))))
    \<and> (\<exists>inner post pre loopOperands fresh'.
          unrollForLoop st tile constOf forLoop fresh =
            Inr ((if (u - l) div s \<le> uf then []
                  else pre @ [Operation (opId forLoop) ForOp loopOperands
                                (ops @ inserted inner @ [last body1])]) @
                 inserted post, fresh')
          \<and> (\<forall>copy\<in>set (inner @ post).
                length copy = length ops \<and>
                (\<forall>j<length ops.
                   opName (snd (copy ! j)) = opName (ops ! j) \<and>
                   (\<forall>q vs. operands (ops ! j) = OpResult q 0 # vs \<and> q \<notin> set (map opId body1) \<longrightarrow>
                      hd (operands (snd (copy ! j))) = OpResult q 0))))"
proof (intro conjI)
  show "\<forall>op\<in>set (body forLoop). isRelease op \<longrightarrow> substituteAcquire st tile op = op"
    by (simp add: substituteAcquire_release)
  show "\<forall>op\<in>set (body forLoop). \<forall>f children vs.
          isAcquire op \<and> portOf op = Some Consume \<and> operands op = OpResult f 0 # vs \<and>
          splitFifos st f = Some children \<and> f \<notin> set children \<and>
          (\<exists>c\<in>set children. producerTile (fifoOps st c) = tile) \<longrightarrow>
          (\<exists>c\<in>set children. producerTile (fifoOps st c) = tile \<and>
             operands (substituteAcquire st tile op) =
               OpResult c 0 # map (\<lambda>v. if v = OpResult f 0 then OpResult c 0 else v) vs \<and>
             OpResult f 0 \<notin> set (operands (substituteAcquire st tile op)))"
    using substituteAcquire_child by blast
  from unroll_structure [OF found [unfolded body1_def] fifos [unfolded body1_def] bounds cvals range
        wf [unfolded ops_def body1_def], of fresh]
  obtain deps inner post fresh' where
    un: "unrollForLoop st tile constOf forLoop fresh =
        Inr ((if (u - l) div s \<le> uf then []
              else (if ((u - l) mod (uf * s)) div s \<noteq> 0
                    then [Operation fresh (ConstantOp (((u - l) div (uf * s)) * (uf * s))) [] []] else []) @
                   [Operation (if ((u - l) mod (uf * s)) div s \<noteq> 0 then Suc fresh else fresh)
                      (ConstantOp (uf * s)) [] []] @
                   [Operation (opId forLoop) ForOp
                      (lb # (if ((u - l) mod (uf * s)) div s \<noteq> 0 then OpResult fresh 0 else ub) #
                       OpResult (if ((u - l) mod (uf * s)) div s \<noteq> 0 then Suc fresh else fresh) 0 # others)
                      (ops @ inserted inner @ [last body1])]) @
             inserted post, fresh')"
    and ci: "\<forall>i<length inner.
            isCopyOf ops deps (BlockArg (opId forLoop) 0) ((int i + 1) * s) (inner ! i)"
    and cp: "\<forall>i<length post.
            isCopyOf ops deps (if (u - l) div s \<le> uf then lb
               else (if ((u - l) mod (uf * s)) div s \<noteq> 0 then OpResult fresh 0 else ub))
              (int i * s) (post ! i)"
    and dd: "\<forall>j<length ops. \<forall>k<length (operands (ops ! j)).
            dependsOn (opId forLoop) (map opId body1) ops j (operands (ops ! j) ! k) (deps ! j ! k)"
    unfolding body1_def [symmetric] ops_def [symmetric] uf_def [symmetric]
    by blast
  have copies: "\<forall>copy\<in>set (inner @ post). \<exists>base inc. isCopyOf ops deps base inc copy"
  proof
    fix copy assume "copy \<in> set (inner @ post)"
    then consider i where "i < length inner" "copy = inner ! i"
      | i where "i < length post" "copy = post ! i"
      by (auto simp: in_set_conv_nth)
    then show "\<exists>base inc. isCopyOf ops deps base inc copy"
      using ci cp by cases blast+
  qed
  have keep: "\<forall>copy\<in>set (inner @ post).
                length copy = length ops \<and>
                (\<forall>j<length ops.
                   opName (snd (copy ! j)) = opName (ops ! j) \<and>
                   (\<forall>q vs. operands (ops ! j) = OpResult q 0 # vs \<and> q \<notin> set (map opId body1) \<longrightarrow>
                      hd (operands (snd (copy ! j))) = OpResult q 0))"
  proof
    fix copy assume "copy \<in> set (inner @ post)"
    with copies obtain base inc where c: "isCopyOf ops deps base inc copy" by blast
    show "length copy = length ops \<and>
                (\<forall>j<length ops.
                   opName (snd (copy ! j)) = opName (ops ! j) \<and>
                   (\<forall>q vs. operands (ops ! j) = OpResult q 0 # vs \<and> q \<notin> set (map opId body1) \<longrightarrow>
                      hd (operands (snd (copy ! j))) = OpResult q 0))"
    proof (intro conjI allI impI)
      show "length copy = length ops" using c by (simp add: isCopyOf_def)
    next
      fix j assume "j < length ops"
      with c show "opName (snd (copy ! j)) = opName (ops ! j)" by (simp add: isCopyOf_def)
    next
      fix j q vs assume j: "j < length ops"
        and o: "operands (ops ! j) = OpResult q 0 # vs \<and> q \<notin> set (map opId body1)"
      then have k0: "0 < length (operands (ops ! j))" by simp
      have "dependsOn (opId forLoop) (map opId body1) ops j (operands (ops ! j) ! 0) (deps ! j ! 0)"
        by (rule dd [rule_format, OF j k0])
      from isCopyOf_keeps_outer_operand [OF c j _ this] o
      show "hd (operands (snd (copy ! j))) = OpResult q 0" by blast
    qed
  qed
  from un keep show "\<exists>inner post pre loopOperands fresh'.
          unrollForLoop st tile constOf forLoop fresh =
            Inr ((if (u - l) div s \<le> uf then []
                  else pre @ [Operation (opId forLoop) ForOp loopOperands
                                (ops @ inserted inner @ [last body1])]) @
                 inserted post, fresh')
          \<and> (\<forall>copy\<in>set (inner @ post).
                length copy = length ops \<and>
                (\<forall>j<length ops.
                   opName (snd (copy ! j)) = opName (ops ! j) \<and>
                   (\<forall>q vs. operands (ops ! j) = OpResult q 0 # vs \<and> q \<notin> set (map opId body1) \<longrightarrow>
                      hd (operands (snd (copy ! j))) = OpResult q 0)))"
    by (intro exI [of _ inner] exI [of _ post]
          exI [of _ "(if ((u - l) mod (uf * s)) div s \<noteq> 0
                    then [Operation fresh (ConstantOp (((u - l) div (uf * s)) * (uf * s))) [] []] else []) @
                   [Operation (if ((u - l) mod (uf * s)) div s \<noteq> 0 then Suc fresh else fresh)
                      (ConstantOp (uf * s)) [] []]"]
          exI [of _ "lb # (if ((u - l) mod (uf * s)) div s \<noteq> 0 then OpResult fresh 0 else ub) #
                       OpResult (if ((u - l) mod (uf * s)) div s \<noteq> 0 then Suc fresh else fresh) 0 # others"]
          exI [of _ fresh'])
       simp
qed

theorem unrollForLoop_substitutes_acquires_witness:
  "operands (substituteAcquire splitState 7
       (Operation 31 (ObjectFifoAcquireOp Consume 1) [OpResult 0 0] [])) = [OpResult 1 0]
   \<and> substituteAcquire splitState 7 (Operation 33 (ObjectFifoReleaseOp Consume 1) [OpResult 0 0] [])
       = Operation 33 (ObjectFifoReleaseOp Consume 1) [OpResult 0 0] []
   \<and> (\<exists>inner post pre loopOperands fresh'.
        unrollForLoop splitState 7 (exampleConsts 0 6 1) consumerLoop 100 =
          Inr (pre @ [Operation 30 ForOp loopOperands
                 (butlast (map (substituteAcquire splitState 7) (body consumerLoop)) @
                  inserted inner @
                  [last (map (substituteAcquire splitState 7) (body consumerLoop))])] @
               inserted post, fresh')
        \<and> list_all (\<lambda>copy. length copy = 3) (inner @ post))"
proof -
  let ?b = "map (substituteAcquire splitState 7) (body consumerLoop)"
  let ?acq = "Operation 31 (ObjectFifoAcquireOp Consume 1) [OpResult 0 0] []"
  let ?rel = "Operation 33 (ObjectFifoReleaseOp Consume 1) [OpResult 0 0] []"
  have h1: "filter isAcquire ?b \<noteq> []" by code_simp
  have h2: "\<forall>a\<in>set (filter isAcquire ?b).
                  fifoOf a \<noteq> None \<and> 0 < size_fifo (fifoOps splitState (the (fifoOf a)))"
    by code_simp
  have h3: "operands consumerLoop = OpResult 20 0 # OpResult 21 0 # OpResult 22 0 # []"
    by (simp add: consumerLoop_def)
  have h4: "exampleConsts 0 6 1 (OpResult 20 0) = Some 0" "exampleConsts 0 6 1 (OpResult 21 0) = Some 6"
    "exampleConsts 0 6 1 (OpResult 22 0) = Some 1"
    by (simp_all add: exampleConsts_def)
  have h5: "(0 :: int) < 1" "(0 :: int) \<le> 6" by simp_all
  have h7: "definedBeforeUse (opId consumerLoop) (map opId ?b) (butlast ?b)"
    by code_simp
  note T = unrollForLoop_substitutes_acquires [OF h1 h2 h3 h4 h5 h7, of 100]
  have uf: "Lcm ((\<lambda>a. size_fifo (fifoOps splitState (the (fifoOf a)))) ` set (filter isAcquire ?b)) = 2"
  proof -
    have "filter isAcquire ?b = [Operation 31 (ObjectFifoAcquireOp Consume 1) [OpResult 1 0] []]"
      by code_simp
    then show ?thesis by (simp add: fifoOf_def size_fifo_def splitState_def)
  qed
  have inb: "?acq \<in> set (body consumerLoop)" "?rel \<in> set (body consumerLoop)"
    by (simp_all add: consumerLoop_def)
  have pa: "isAcquire ?acq \<and> portOf ?acq = Some Consume \<and> operands ?acq = OpResult 0 0 # [] \<and>
          splitFifos splitState 0 = Some [1] \<and> 0 \<notin> set [1 :: nat] \<and>
          (\<exists>c\<in>set [1]. producerTile (fifoOps splitState c) = 7)"
    by (simp add: isAcquire_def portOf_def splitState_def)
  from T [THEN conjunct2, THEN conjunct1, rule_format, OF inb(1) pa]
  have w1: "operands (substituteAcquire splitState 7 ?acq) = [OpResult 1 0]"
    by simp
  have "isRelease ?rel" by (simp add: isRelease_def)
  with T [THEN conjunct1, rule_format, OF inb(2)]
  have w2: "substituteAcquire splitState 7 ?rel = ?rel" by simp
  have len: "length (body consumerLoop) - Suc 0 = 3" by (simp add: consumerLoop_def)
  have oid: "opId consumerLoop = 30" by (simp add: consumerLoop_def)
  from T [THEN conjunct2, THEN conjunct2, unfolded uf]
  have w3: "\<exists>inner post pre loopOperands fresh'.
        unrollForLoop splitState 7 (exampleConsts 0 6 1) consumerLoop 100 =
          Inr (pre @ [Operation 30 ForOp loopOperands
                 (butlast ?b @ inserted inner @ [last ?b])] @ inserted post, fresh')
        \<and> list_all (\<lambda>copy. length copy = 3) (inner @ post)"
    apply (elim exE conjE)
    subgoal for inner post pre loopOperands fresh'
      apply (rule exI [of _ inner], rule exI [of _ post], rule exI [of _ pre],
             rule exI [of _ loopOperands], rule exI [of _ fresh'])
      apply (auto simp: oid len list_all_iff)
      done
    done
  from w1 w2 w3 show ?thesis by blast
qed

text \<open>
  C9 fails as stated: in a kernel on tile 7 the loop acquires and releases the split queue 0
  as a consumer. After the unrolling the acquire (31) and its clone (101) name the child 1,
  but the release (33) and its clone (105) still name the parent 0.
\<close>

theorem release_not_substituted_counterexample:
  "splitFifos splitState 0 = Some [1]
   \<and> producerTile (fifoOps splitState 1) = 7
   \<and> unrollForLoop splitState 7 (exampleConsts 0 6 1) consumerLoop 100 =
     Inr ([Operation 100 (ConstantOp 2) [] [],
           Operation 30 ForOp [OpResult 20 0, OpResult 21 0, OpResult 100 0]
            [Operation 31 (ObjectFifoAcquireOp Consume 1) [OpResult 1 0] [],
             Operation 32 (OtherOp ''use'') [OpResult 31 0, BlockArg 30 0] [],
             Operation 33 (ObjectFifoReleaseOp Consume 1) [OpResult 0 0] [],
             Operation 101 (ObjectFifoAcquireOp Consume 1) [OpResult 1 0] [],
             Operation 103 (ConstantOp 1) [] [],
             Operation 104 AddIOp [BlockArg 30 0, OpResult 103 0] [],
             Operation 102 (OtherOp ''use'') [OpResult 101 0, OpResult 104 0] [],
             Operation 105 (ObjectFifoReleaseOp Consume 1) [OpResult 0 0] [],
             Operation 34 (OtherOp ''scf.yield'') [] []]],
          106)
   \<and> fifoOf (Operation 105 (ObjectFifoReleaseOp Consume 1) [OpResult 0 0] []) = Some 0"
  by code_simp

end
